theory Spec2Isabelle
  imports Complex_Main
begin

section \<open>Built-in operations used by \<open>src/index.ts\<close>\<close>

text \<open>
  Strings are lists of characters; a character stands for a UTF-16 code unit below 256,
  that is, for a character of the Latin-1 range. \<open>String.prototype.toLowerCase\<close> maps
  every character to its lower-case form and keeps the others: in this range the cased
  characters are the letters \<open>A\<close>..\<open>Z\<close> and the letters from \<open>U+00C0\<close> to \<open>U+00DE\<close>
  without the multiplication sign \<open>U+00D7\<close>, and the lower-case form of each is the
  character 32 places further on.
\<close>

definition upper_case_letters :: string where
  "upper_case_letters =
     ''ABCDEFGHIJKLMNOPQRSTUVWXYZ'' @
          [CHR 0xC0, CHR 0xC1, CHR 0xC2, CHR 0xC3, CHR 0xC4, CHR 0xC5, CHR 0xC6, CHR 0xC7,
           CHR 0xC8, CHR 0xC9, CHR 0xCA, CHR 0xCB, CHR 0xCC, CHR 0xCD, CHR 0xCE, CHR 0xCF,
           CHR 0xD0, CHR 0xD1, CHR 0xD2, CHR 0xD3, CHR 0xD4, CHR 0xD5, CHR 0xD6, CHR 0xD8,
           CHR 0xD9, CHR 0xDA, CHR 0xDB, CHR 0xDC, CHR 0xDD, CHR 0xDE]"

definition lower_case_letters :: string where
  "lower_case_letters =
     ''abcdefghijklmnopqrstuvwxyz'' @
          [CHR 0xE0, CHR 0xE1, CHR 0xE2, CHR 0xE3, CHR 0xE4, CHR 0xE5, CHR 0xE6, CHR 0xE7,
           CHR 0xE8, CHR 0xE9, CHR 0xEA, CHR 0xEB, CHR 0xEC, CHR 0xED, CHR 0xEE, CHR 0xEF,
           CHR 0xF0, CHR 0xF1, CHR 0xF2, CHR 0xF3, CHR 0xF4, CHR 0xF5, CHR 0xF6, CHR 0xF8,
           CHR 0xF9, CHR 0xFA, CHR 0xFB, CHR 0xFC, CHR 0xFD, CHR 0xFE]"

definition lower_char :: "char \<Rightarrow> char" where
  "lower_char c =
     (case map_of (zip upper_case_letters lower_case_letters) c of
        None \<Rightarrow> c
      | Some l \<Rightarrow> l)"

definition toLowerCase :: "string \<Rightarrow> string" where
  "toLowerCase s = map lower_char s"

text \<open>
  \<open>String.prototype.includes(searchString)\<close>: the positions of the receiver are tried from
  the left; at each one the next \<open>length searchString\<close> characters are compared with
  \<open>searchString\<close>. The position just after the last character is tried as well, which is
  where the empty search string is found in the empty text.
\<close>

fun str_includes :: "string \<Rightarrow> string \<Rightarrow> bool" where
  "str_includes [] searchString = (searchString = [])"
| "str_includes (c # cs) searchString =
     (take (length searchString) (c # cs) = searchString \<or> str_includes cs searchString)"

text \<open>\<open>Array.prototype.join(separator)\<close> on an array of strings.\<close>

fun join :: "string \<Rightarrow> string list \<Rightarrow> string" where
  "join sep [] = []"
| "join sep [x] = x"
| "join sep (x # y # ys) = x @ sep @ join sep (y # ys)"

text \<open>\<open>Array.prototype.includes\<close>.\<close>

definition array_includes :: "'a list \<Rightarrow> 'a \<Rightarrow> bool" where
  "array_includes xs x = (x \<in> set xs)"

text \<open>
  \<open>path.extname\<close> on a directory entry (a name without path separators): the part of the
  name from its last dot on; empty when the name has no dot, when its only dot is the
  first character, and for the name \<open>..\<close>.
\<close>

fun last_dot :: "string \<Rightarrow> nat option" where
  "last_dot [] = None"
| "last_dot (c # cs) =
     (case last_dot cs of
        Some i \<Rightarrow> Some (Suc i)
      | None \<Rightarrow> (if c = CHR ''.'' then Some 0 else None))"

definition extname :: "string \<Rightarrow> string" where
  "extname p =
     (case last_dot p of
        None \<Rightarrow> []
      | Some startDot \<Rightarrow>
          (if startDot = 0 \<or> p = ''..'' then [] else drop startDot p))"

text \<open>
  The pieces of a string between the occurrences of a separator, as
  \<open>String.prototype.split\<close> gives them: \<open>n\<close> separators give \<open>n + 1\<close> pieces.
\<close>

fun split_on :: "char \<Rightarrow> string \<Rightarrow> string list" where
  "split_on d [] = [[]]"
| "split_on d (c # cs) =
     (if c = d then [] # split_on d cs
      else (c # hd (split_on d cs)) # tl (split_on d cs))"

text \<open>
  \<open>path.join\<close> of Node (POSIX): the non-empty arguments are put together with \<open>/\<close> and
  the result is normalised. Normalisation goes through the segments of the path from
  the left: an empty segment and \<open>.\<close> are dropped, \<open>..\<close> removes the segment before it
  when there is one that is not \<open>..\<close> itself, and is kept otherwise if the path is
  relative. A trailing slash is kept, and the empty result is \<open>.\<close>.
\<close>

fun normalizeString :: "bool \<Rightarrow> string list \<Rightarrow> string list \<Rightarrow> string list" where
  "normalizeString allowAboveRoot [] res = res"
| "normalizeString allowAboveRoot (segment # segments) res =
     (if segment = [] \<or> segment = ''.'' then normalizeString allowAboveRoot segments res
      else if segment = ''..'' then
        (if res \<noteq> [] \<and> last res \<noteq> ''..''
         then normalizeString allowAboveRoot segments (butlast res)
         else if allowAboveRoot
         then normalizeString allowAboveRoot segments (res @ [''..''])
         else normalizeString allowAboveRoot segments res)
      else normalizeString allowAboveRoot segments (res @ [segment]))"

definition path_normalize :: "string \<Rightarrow> string" where
  "path_normalize p =
     (if p = [] then ''.''
      else
        (let isAbsolute = (hd p = CHR ''/'');
             trailingSeparator = (last p = CHR ''/'');
             res = join ''/'' (normalizeString (\<not> isAbsolute) (split_on CHR ''/'' p) [])
         in if res = [] then
              (if isAbsolute then ''/'' else if trailingSeparator then ''./'' else ''.'')
            else (if isAbsolute then ''/'' else []) @ res @
                 (if trailingSeparator then ''/'' else [])))"

definition path_join :: "string \<Rightarrow> string \<Rightarrow> string" where
  "path_join dir file =
     (if dir = [] \<and> file = [] then ''.''
      else if dir = [] then path_normalize file
      else if file = [] then path_normalize dir
      else path_normalize (dir @ ''/'' @ file))"

subsection \<open>\<open>Map<string, boolean>\<close>\<close>

text \<open>
  A JavaScript \<open>Map\<close> keeps its entries in insertion order; \<open>set\<close> on a key that is
  already there replaces the value and leaves the entry where it is. \<open>get\<close> of a missing
  key is \<open>undefined\<close>, here \<open>None\<close>.
\<close>

type_synonym ('k, 'v) js_map = "('k \<times> 'v) list"

fun Map_set :: "('k, 'v) js_map \<Rightarrow> 'k \<Rightarrow> 'v \<Rightarrow> ('k, 'v) js_map" where
  "Map_set [] k v = [(k, v)]"
| "Map_set ((k', v') # m) k v =
     (if k' = k then (k, v) # m else (k', v') # Map_set m k v)"

fun Map_get :: "('k, 'v) js_map \<Rightarrow> 'k \<Rightarrow> 'v option" where
  "Map_get [] k = None"
| "Map_get ((k', v') # m) k = (if k' = k then Some v' else Map_get m k)"

definition Map_keys :: "('k, 'v) js_map \<Rightarrow> 'k list" where
  "Map_keys m = map fst m"

definition Map_values :: "('k, 'v) js_map \<Rightarrow> 'v list" where
  "Map_values m = map snd m"

subsection \<open>Numbers\<close>

text \<open>
  A JavaScript number is an IEEE 754 double. The numbers of this program are counts,
  quotients and products of them, so only the values that are not negative are
  modelled: \<open>Finite s p\<close> is the double \<open>s * 2 ^ p\<close> with its significand \<open>s\<close> below
  \<open>2 ^ 53\<close> and its exponent \<open>p\<close> from \<open>- 1074\<close> to \<open>971\<close> (a normal double has
  \<open>2 ^ 52 \<le> s\<close>, a subnormal one and zero have \<open>p = - 1074\<close>), and \<open>value_of\<close> is the
  rational number it stands for.
\<close>

datatype js_number = Finite nat int | Infinity | NaN

definition pow2 :: "int \<Rightarrow> rat" where
  "pow2 k = (if 0 \<le> k then 2 ^ nat k else 1 / 2 ^ nat (- k))"

fun value_of :: "js_number \<Rightarrow> rat option" where
  "value_of (Finite s p) = Some (of_nat s * pow2 p)"
| "value_of Infinity = None"
| "value_of NaN = None"

text \<open>
  Every arithmetic operation returns the double nearest to the exact result, a tie going
  to the even significand. \<open>round_ratio a b\<close> is that double for the positive quotient
  \<open>a / b\<close>: with \<open>2 ^ e \<le> a / b < 2 ^ (e + 1)\<close> the quotient is rounded to a multiple of
  \<open>2 ^ (e - 52)\<close>, or of \<open>2 ^ - 1074\<close> in the subnormal range; a result of \<open>2 ^ 1024\<close> or
  more is \<open>Infinity\<close>.
\<close>

fun bit_length :: "nat \<Rightarrow> nat" where
  "bit_length n = (if n = 0 then 0 else Suc (bit_length (n div 2)))"

declare bit_length.simps [simp del]

definition floor_log2 :: "nat \<Rightarrow> nat \<Rightarrow> int" where
  "floor_log2 a b =
     (let d = int (bit_length a) - int (bit_length b)
      in if (if 0 \<le> d then b * 2 ^ nat d \<le> a else b \<le> a * 2 ^ nat (- d)) then d else d - 1)"

definition round_half_even :: "nat \<Rightarrow> nat \<Rightarrow> nat" where
  "round_half_even num den =
     (let q = num div den; r = num mod den
      in if 2 * r < den then q
         else if den < 2 * r then q + 1
         else if even q then q else q + 1)"

definition round_ratio :: "nat \<Rightarrow> nat \<Rightarrow> js_number" where
  "round_ratio a b =
     (let e = floor_log2 a b;
          p = max (e - 52) (- 1074);
          s = (if 0 \<le> p then round_half_even a (b * 2 ^ nat p)
               else round_half_even (a * 2 ^ nat (- p)) b)
      in if s = 2 ^ 53 then (if 971 < p + 1 then Infinity else Finite (2 ^ 52) (p + 1))
         else if 971 < p then Infinity
         else Finite s p)"

definition js_zero :: js_number where
  "js_zero = Finite 0 (- 1074)"

text \<open>The number that holds a count: the count itself when it is below \<open>2 ^ 53\<close>.\<close>

definition number :: "nat \<Rightarrow> js_number" where
  "number n = (if n = 0 then js_zero else round_ratio n 1)"

text \<open>The operators \<open>/\<close> and \<open>*\<close> on numbers that are not negative.\<close>

fun js_divide :: "js_number \<Rightarrow> js_number \<Rightarrow> js_number" where
  "js_divide (Finite s1 p1) (Finite s2 p2) =
     (if s2 = 0 then (if s1 = 0 then NaN else Infinity)
      else if s1 = 0 then js_zero
      else round_ratio (s1 * 2 ^ nat (p1 - p2)) (s2 * 2 ^ nat (p2 - p1)))"
| "js_divide (Finite s1 p1) Infinity = js_zero"
| "js_divide Infinity (Finite s2 p2) = Infinity"
| "js_divide Infinity Infinity = NaN"
| "js_divide NaN y = NaN"
| "js_divide x NaN = NaN"

fun js_times :: "js_number \<Rightarrow> js_number \<Rightarrow> js_number" where
  "js_times (Finite s1 p1) (Finite s2 p2) =
     (if s1 = 0 \<or> s2 = 0 then js_zero
      else round_ratio (s1 * s2 * 2 ^ nat (p1 + p2)) (2 ^ nat (- (p1 + p2))))"
| "js_times (Finite s1 p1) Infinity = (if s1 = 0 then NaN else Infinity)"
| "js_times Infinity (Finite s2 p2) = (if s2 = 0 then NaN else Infinity)"
| "js_times Infinity Infinity = Infinity"
| "js_times NaN y = NaN"
| "js_times x NaN = NaN"

section \<open>Configuration\<close>

definition newline :: char where
  "newline = CHR 0x0A"

definition IMAGE_DIR :: string where
  "IMAGE_DIR = ''./images''"

definition OUTPUT_FILE :: string where
  "OUTPUT_FILE = ''results.csv''"

definition SUPPORTED_EXTENSIONS :: "string list" where
  "SUPPORTED_EXTENSIONS = [''.jpg'', ''.jpeg'', ''.png'', ''.tiff'', ''.tif'']"

text \<open>
  The keyword list is a module constant of the source. The functions below take it as
  their first argument, so that the properties are stated for every keyword list; the
  configured value is \<open>TARGET_KEYWORDS\<close>.
\<close>

definition TARGET_KEYWORDS :: "string list" where
  "TARGET_KEYWORDS = [''Selamat'']"

record ImageResult =
  fileName :: string
  keywordStatus :: "(string, bool) js_map"

section \<open>Helper functions\<close>

definition isSupportedImage :: "string \<Rightarrow> bool" where
  "isSupportedImage filename =
     (let ext = toLowerCase (extname filename)
      in array_includes SUPPORTED_EXTENSIONS ext)"

subsection \<open>\<open>checkKeywords\<close>\<close>

fun checkKeywords_loop ::
  "string \<Rightarrow> string list \<Rightarrow> (string, bool) js_map \<Rightarrow> (string, bool) js_map" where
  "checkKeywords_loop lowerText [] statusMap = statusMap"
| "checkKeywords_loop lowerText (keyword # rest) statusMap =
     (let found = str_includes lowerText (toLowerCase keyword)
      in checkKeywords_loop lowerText rest (Map_set statusMap keyword found))"

definition checkKeywords :: "string list \<Rightarrow> string \<Rightarrow> (string, bool) js_map" where
  "checkKeywords keywords text =
     (let lowerText = toLowerCase text
      in checkKeywords_loop lowerText keywords [])"

subsection \<open>\<open>convertToCsv\<close>\<close>

definition searchHeaders :: "string list \<Rightarrow> string" where
  "searchHeaders keywords = join '','' keywords"

definition header :: "string list \<Rightarrow> string" where
  "header keywords = ''Case,'' @ searchHeaders keywords @ [newline]"

definition statusText :: "bool \<Rightarrow> string" where
  "statusText status = (if status then ''found'' else ''not found'')"

fun row_loop :: "ImageResult \<Rightarrow> string list \<Rightarrow> string \<Rightarrow> string" where
  "row_loop result [] row = row"
| "row_loop result (keyword # rest) row =
     (let status = (case Map_get (keywordStatus result) keyword of
                      None \<Rightarrow> False
                    | Some b \<Rightarrow> b)
      in row_loop result rest (row @ '','' @ statusText status))"

definition csv_row :: "string list \<Rightarrow> ImageResult \<Rightarrow> string" where
  "csv_row keywords result = row_loop result keywords (fileName result)"

definition rows :: "string list \<Rightarrow> ImageResult list \<Rightarrow> string list" where
  "rows keywords results = map (csv_row keywords) results"

definition convertToCsv :: "string list \<Rightarrow> ImageResult list \<Rightarrow> string" where
  "convertToCsv keywords results = header keywords @ join [newline] (rows keywords results)"

section \<open>The orchestrator \<open>processImages\<close>\<close>

text \<open>
  The file system and the OCR engine are the environment of a run. A call that throws,
  or a promise that rejects, does so with an \<open>Error\<close>; its message is returned on the
  left.
  \<open>recognize\<close> is called with the fixed configuration of the source, which is left out.
\<close>

record world =
  readdirSync :: "string \<Rightarrow> string + string list"
  recognize :: "string \<Rightarrow> string + string"
  writeFileSync :: "string \<Rightarrow> string \<Rightarrow> string option"

text \<open>
  One constructor for each \<open>console.log\<close> and \<open>console.error\<close> call of the source, with
  the values interpolated into its message.
\<close>

datatype console_entry =
    LogStarting string
  | LogNoSupportedImages string string
  | LogFound nat
  | LogSeparator
  | LogProcessed string nat nat
  | ErrorProcessing string string
  | LogSummaryTop
  | LogSummaryTitle
  | LogSummaryRule
  | LogTotalImages nat
  | LogTotalKeywords nat
  | LogTotalMatches nat
  | LogAverage js_number
  | LogResultsWritten string
  | ErrorFatal string

text \<open>
  The state of a run: the two variables declared before the outer \<open>try\<close>, the console,
  and the data written to \<open>OUTPUT_FILE\<close> by this run, if any.
\<close>

record run_state =
  allImageResults :: "ImageResult list"
  totalSuccessfulMatches :: nat
  console :: "console_entry list"
  outputFile :: "string option"

definition log :: "console_entry \<Rightarrow> run_state \<Rightarrow> run_state" where
  "log e st = st\<lparr>console := console st @ [e]\<rparr>"

definition foundCount :: "(string, bool) js_map \<Rightarrow> nat" where
  "foundCount statusMap = length (filter (\<lambda>v. v) (Map_values statusMap))"

text \<open>The body of the \<open>for\<close> loop over the image files, with its inner \<open>try\<close>/\<open>catch\<close>.\<close>

definition process_file :: "world \<Rightarrow> string list \<Rightarrow> string \<Rightarrow> run_state \<Rightarrow> run_state" where
  "process_file w keywords file st =
     (let imagePath = path_join IMAGE_DIR file
      in case recognize w imagePath of
           Inr text \<Rightarrow>
             (let statusMap = checkKeywords keywords text;
                  st1 = st\<lparr>allImageResults := allImageResults st @
                            [\<lparr>fileName = file, keywordStatus = statusMap\<rparr>]\<rparr>;
                  st2 = st1\<lparr>totalSuccessfulMatches :=
                            totalSuccessfulMatches st1 + foundCount statusMap\<rparr>
              in log (LogProcessed file (foundCount statusMap) (length keywords)) st2)
         | Inl message \<Rightarrow> log (ErrorProcessing file message) st)"

fun process_loop :: "world \<Rightarrow> string list \<Rightarrow> string list \<Rightarrow> run_state \<Rightarrow> run_state" where
  "process_loop w keywords [] st = st"
| "process_loop w keywords (file # files) st =
     process_loop w keywords files (process_file w keywords file st)"

text \<open>
  The summary calculation of lines 134 to 139. The counters are natural numbers; the
  quotient and the product are taken on doubles.
\<close>

definition averageMatchPercentage :: "nat \<Rightarrow> nat \<Rightarrow> js_number" where
  "averageMatchPercentage matches totalPossibleChecks =
     (if totalPossibleChecks > 0
      then js_times (js_divide (number matches) (number totalPossibleChecks)) (number 100)
      else number 0)"

definition summary :: "nat \<Rightarrow> nat \<Rightarrow> nat \<Rightarrow> js_number \<Rightarrow> console_entry list" where
  "summary numImages totalPossibleChecks matches average =
     [LogSummaryTop, LogSummaryTitle, LogSummaryRule,
      LogTotalImages numImages,
      LogTotalKeywords totalPossibleChecks,
      LogTotalMatches matches,
      LogAverage average,
      LogResultsWritten OUTPUT_FILE,
      LogSummaryRule]"

definition initial_state :: run_state where
  "initial_state =
     \<lparr>allImageResults = [], totalSuccessfulMatches = 0,
      console = [LogStarting IMAGE_DIR], outputFile = None\<rparr>"

definition processImages :: "world \<Rightarrow> string list \<Rightarrow> run_state" where
  "processImages w keywords =
     (let st0 = initial_state
      in case readdirSync w IMAGE_DIR of
           Inl message \<Rightarrow> log (ErrorFatal message) st0
         | Inr files \<Rightarrow>
             (let imageFiles = filter isSupportedImage files
              in if length imageFiles = 0
                 then log (LogNoSupportedImages (join '', '' SUPPORTED_EXTENSIONS) IMAGE_DIR) st0
                 else
                   (let numImages = length imageFiles;
                        numKeywords = length keywords;
                        totalPossibleChecks = numImages * numKeywords;
                        st1 = log LogSeparator (log (LogFound numImages) st0);
                        st2 = process_loop w keywords imageFiles st1;
                        average = averageMatchPercentage (totalSuccessfulMatches st2)
                                    totalPossibleChecks;
                        csvData = convertToCsv keywords (allImageResults st2)
                    in case writeFileSync w OUTPUT_FILE csvData of
                         Some message \<Rightarrow> log (ErrorFatal message) st2
                       | None \<Rightarrow>
                           (st2\<lparr>outputFile := Some csvData\<rparr>)
                             \<lparr>console := console st2 @
                                summary numImages totalPossibleChecks
                                  (totalSuccessfulMatches st2) average\<rparr>)))"

section \<open>Notions of the specification\<close>

text \<open>
  The deduplicated keyword list: every keyword once, at the place of its first
  occurrence.
\<close>

fun deduplicated :: "'a list \<Rightarrow> 'a list" where
  "deduplicated [] = []"
| "deduplicated (x # xs) = x # deduplicated (filter (\<lambda>y. y \<noteq> x) xs)"

text \<open>
  The fields of a line are the pieces between its commas, and the lines of a document
  the pieces between its newlines (\<open>split_on\<close>).
\<close>

definition column_count :: "string \<Rightarrow> nat" where
  "column_count line = length (split_on CHR '','' line)"

definition ends_with_newline :: "string \<Rightarrow> bool" where
  "ends_with_newline s = (s \<noteq> [] \<and> last s = newline)"

text \<open>
  The successfully processed images of a run are the qualifying files on which the OCR
  adapter does not fail; \<open>recognized_texts\<close> lists their texts, in the order of the files.
\<close>

definition recognized_texts :: "world \<Rightarrow> string list \<Rightarrow> string list" where
  "recognized_texts w files =
     concat (map (\<lambda>file. case recognize w (path_join IMAGE_DIR file) of
                            Inr text \<Rightarrow> [text]
                          | Inl message \<Rightarrow> []) files)"

section \<open>Auxiliary definitions\<close>

text \<open>The map that holds \<open>f k\<close> under every key \<open>k\<close> of a list, in the order of the list.\<close>

definition tabulate :: "('k \<Rightarrow> 'v) \<Rightarrow> 'k list \<Rightarrow> ('k, 'v) js_map" where
  "tabulate f ks = map (\<lambda>k. (k, f k)) ks"

text \<open>The status that \<open>convertToCsv\<close> reads for a keyword: a missing key counts as false.\<close>

definition status_of :: "ImageResult \<Rightarrow> string \<Rightarrow> bool" where
  "status_of result keyword =
     (case Map_get (keywordStatus result) keyword of None \<Rightarrow> False | Some b \<Rightarrow> b)"

text \<open>The console entry that the loop body writes for a file.\<close>

definition file_entry :: "world \<Rightarrow> string list \<Rightarrow> string \<Rightarrow> console_entry" where
  "file_entry w keywords file =
     (case recognize w (path_join IMAGE_DIR file) of
        Inr text \<Rightarrow> LogProcessed file (foundCount (checkKeywords keywords text)) (length keywords)
      | Inl message \<Rightarrow> ErrorProcessing file message)"

text \<open>The state in which the loop over the image files starts.\<close>

definition loop_start :: "nat \<Rightarrow> run_state" where
  "loop_start numImages = log LogSeparator (log (LogFound numImages) initial_state)"

text \<open>
  Environments for concrete runs. In the first the directory holds three images and a
  text file, and recognition fails on the second image; in the second recognition fails
  on every image; in the third the directory holds no image.
\<close>

definition example_world :: world where
  "example_world =
     \<lparr>readdirSync = (\<lambda>dir. Inr [''a.png'', ''notes.txt'', ''b.JPG'', ''c.tif'']),
      recognize = (\<lambda>p. if p = ''images/b.JPG'' then Inl ''unreadable''
                         else Inr ''Selamat datang''),
      writeFileSync = (\<lambda>p data. None)\<rparr>"

definition all_fail_world :: world where
  "all_fail_world =
     \<lparr>readdirSync = (\<lambda>dir. Inr [''a.png'', ''b.jpeg'']),
      recognize = (\<lambda>p. Inl ''unreadable''),
      writeFileSync = (\<lambda>p data. None)\<rparr>"

text \<open>
  A run with five images and five keywords, of which seven of the twenty-five checks
  succeed.
\<close>

definition rounding_keywords :: "string list" where
  "rounding_keywords = [''a'', ''b'', ''c'', ''d'', ''e'']"

definition rounding_world :: world where
  "rounding_world =
     \<lparr>readdirSync = (\<lambda>dir. Inr [''1.png'', ''2.png'', ''3.png'', ''4.png'', ''5.png'']),
      recognize = (\<lambda>p. if p = ''images/1.png'' then Inr ''abcde''
                         else if p = ''images/2.png'' then Inr ''ab''
                         else Inr []),
      writeFileSync = (\<lambda>p data. None)\<rparr>"

definition no_images_world :: world where
  "no_images_world =
     \<lparr>readdirSync = (\<lambda>dir. Inr [''notes.txt'', ''.png'', ''README'']),
      recognize = (\<lambda>p. Inl ''not called''),
      writeFileSync = (\<lambda>p data. None)\<rparr>"

section \<open>Rounding to a double\<close>

lemmas number_eval =
  averageMatchPercentage_def number_def js_zero_def round_ratio_def round_half_even_def
  floor_log2_def bit_length.simps pow2_def Let_def

lemma pow2_powi: "pow2 k = 2 powi k"
  by (simp add: pow2_def power_int_def power_inverse inverse_eq_divide power_one_over)

lemma bit_length_bounds: "0 < n \<Longrightarrow> 2 ^ (bit_length n - 1) \<le> n \<and> n < 2 ^ bit_length n"
proof (induction n rule: bit_length.induct)
  case (1 n)
  show ?case
  proof (cases "n div 2 = 0")
    case True
    with 1(2) have "n = 1" by (auto simp: div_eq_0_iff)
    then show ?thesis by (simp add: bit_length.simps [of "Suc 0"] bit_length.simps [of 0])
  next
    case False
    with 1 have ih: "2 ^ (bit_length (n div 2) - 1) \<le> n div 2" "n div 2 < 2 ^ bit_length (n div 2)"
      by auto
    have pos: "0 < bit_length (n div 2)"
      using False by (simp add: bit_length.simps [of "n div 2"])
    have "bit_length n = Suc (bit_length (n div 2))"
      using 1(2) by (simp add: bit_length.simps [of n])
    moreover have "2 ^ bit_length (n div 2) \<le> n"
    proof -
      have "2 * 2 ^ (bit_length (n div 2) - 1) \<le> 2 * (n div 2)" using ih(1) by simp
      moreover have "(2::nat) * 2 ^ (bit_length (n div 2) - 1) = 2 ^ bit_length (n div 2)"
        using pos by (metis Suc_pred' power_Suc)
      ultimately show ?thesis by linarith
    qed
    moreover have "n < 2 * 2 ^ bit_length (n div 2)" using ih(2) by linarith
    ultimately show ?thesis by simp
  qed
qed

lemma round_half_even_error:
  "0 < den \<Longrightarrow> \<bar>of_nat (round_half_even num den) - (of_nat num / of_nat den :: rat)\<bar> \<le> 1 / 2"
proof -
  assume d: "0 < den"
  define q where "q = num div den"
  define r where "r = num mod den"
  define y :: rat where "y = of_nat r / of_nat den"
  have n: "num = q * den + r" by (simp add: q_def r_def)
  have rl: "r < den" using d by (simp add: r_def)
  have x: "(of_nat num / of_nat den :: rat) = of_nat q + y"
    using d by (simp add: n y_def field_simps)
  have y0: "0 \<le> y" "y < 1" using d rl by (simp_all add: y_def)
  have r1: "y \<le> 1 / 2" if "2 * r < den"
  proof -
    from that have "(of_nat (2 * r) :: rat) \<le> of_nat den" by (simp only: of_nat_le_iff)
    then show ?thesis using d by (simp add: y_def field_simps)
  qed
  have r2: "1 / 2 \<le> y" if "den \<le> 2 * r"
  proof -
    from that have "(of_nat den :: rat) \<le> of_nat (2 * r)" by (simp only: of_nat_le_iff)
    then show ?thesis using d by (simp add: y_def field_simps)
  qed
  consider "2 * r < den" | "den < 2 * r" | "2 * r = den" by linarith
  then show ?thesis
  proof cases
    case 1
    then have "round_half_even num den = q"
      by (simp add: round_half_even_def Let_def q_def r_def)
    then show ?thesis using r1 [OF 1] y0 by (simp add: x)
  next
    case 2
    then have "round_half_even num den = q + 1"
      by (simp add: round_half_even_def Let_def q_def r_def)
    then show ?thesis using r2 [of] 2 y0 by (simp add: x)
  next
    case 3
    then have h: "y = 1 / 2" using r1 r2 d by (simp add: y_def field_simps)
    from 3 have "round_half_even num den = q \<or> round_half_even num den = q + 1"
      by (simp add: round_half_even_def Let_def q_def r_def)
    then show ?thesis using h by (auto simp: x)
  qed
qed


lemma pow2_pos: "0 < pow2 k"
  by (simp add: pow2_def)

lemma pow2_add: "pow2 (j + k) = pow2 j * pow2 k"
  by (simp add: pow2_powi power_int_add)

lemma pow2_mono: "j \<le> k \<Longrightarrow> pow2 j \<le> pow2 k"
  by (simp add: pow2_powi power_int_increasing)

lemma pow2_strict_mono: "j < k \<Longrightarrow> pow2 j < pow2 k"
  by (simp add: pow2_powi power_int_strict_increasing)

lemma pow2_less_imp: "pow2 j < pow2 k \<Longrightarrow> j < k"
  using pow2_mono [of k j] by (force simp: not_le [symmetric])

lemma pow2_nat: "pow2 (int n) = 2 ^ n"
  by (simp add: pow2_def)

lemma floor_log2_test:
  "0 < b \<Longrightarrow>
   (if 0 \<le> d then b * 2 ^ nat d \<le> a else b \<le> a * 2 ^ nat (- d)) =
   (pow2 d \<le> (of_nat a / of_nat b :: rat))"
proof (cases "0 \<le> d")
  case True
  assume b: "0 < b"
  have "(b * 2 ^ nat d \<le> a) = ((of_nat (b * 2 ^ nat d) :: rat) \<le> of_nat a)"
    by (simp only: of_nat_le_iff)
  also have "\<dots> = (pow2 d \<le> (of_nat a / of_nat b :: rat))"
    using b True by (simp add: pow2_def field_simps)
  finally show ?thesis using True by simp
next
  case False
  assume b: "0 < b"
  have "(b \<le> a * 2 ^ nat (- d)) = ((of_nat b :: rat) \<le> of_nat (a * 2 ^ nat (- d)))"
    by (simp only: of_nat_le_iff)
  also have "\<dots> = (pow2 d \<le> (of_nat a / of_nat b :: rat))"
    using b False by (simp add: pow2_def field_simps)
  finally show ?thesis using False by simp
qed

lemma floor_log2_bounds:
  assumes "0 < a" "0 < b"
  shows "pow2 (floor_log2 a b) \<le> (of_nat a / of_nat b :: rat)"
    and "(of_nat a / of_nat b :: rat) < pow2 (floor_log2 a b + 1)"
proof -
  define d where "d = int (bit_length a) - int (bit_length b)"
  define q :: rat where "q = of_nat a / of_nat b"
  have la: "0 < bit_length a" "0 < bit_length b"
    using assms by (simp_all add: bit_length.simps [of a] bit_length.simps [of b])
  have a1: "(2::rat) ^ (bit_length a - 1) \<le> of_nat a" "(of_nat a :: rat) < 2 ^ bit_length a"
    using bit_length_bounds [OF assms(1)]
    by (metis of_nat_le_iff of_nat_numeral of_nat_power, metis of_nat_less_iff of_nat_numeral of_nat_power)
  have b1: "(2::rat) ^ (bit_length b - 1) \<le> of_nat b" "(of_nat b :: rat) < 2 ^ bit_length b"
    using bit_length_bounds [OF assms(2)]
    by (metis of_nat_le_iff of_nat_numeral of_nat_power, metis of_nat_less_iff of_nat_numeral of_nat_power)
  have bp: "(0::rat) < of_nat b" using assms(2) by simp
  have pa: "pow2 (int (bit_length a) - 1) \<le> of_nat a" "(of_nat a :: rat) < pow2 (int (bit_length a))"
    using a1 la(1) pow2_nat [of "bit_length a - 1"] pow2_nat [of "bit_length a"]
    by (simp_all add: of_nat_diff)
  have pb: "pow2 (int (bit_length b) - 1) \<le> of_nat b" "(of_nat b :: rat) < pow2 (int (bit_length b))"
    using b1 la(2) pow2_nat [of "bit_length b - 1"] pow2_nat [of "bit_length b"]
    by (simp_all add: of_nat_diff)
  have lo: "pow2 (d - 1) < q"
  proof -
    have "pow2 (d - 1) * of_nat b < pow2 (d - 1) * pow2 (int (bit_length b))"
      using pb(2) pow2_pos [of "d - 1"] by simp
    also have "\<dots> = pow2 (int (bit_length a) - 1)"
      by (simp add: pow2_add [symmetric] d_def)
    also have "\<dots> \<le> of_nat a" by (rule pa(1))
    finally show ?thesis using bp by (simp add: q_def field_simps)
  qed
  have hi: "q < pow2 (d + 1)"
  proof -
    have "of_nat a < pow2 (int (bit_length a))" by (rule pa(2))
    also have "\<dots> = pow2 (d + 1) * pow2 (int (bit_length b) - 1)"
      by (simp add: pow2_add [symmetric] d_def)
    also have "\<dots> \<le> pow2 (d + 1) * of_nat b"
      using pb(1) pow2_pos [of "d + 1"] by simp
    finally show ?thesis using bp by (simp add: q_def field_simps)
  qed
  have e: "floor_log2 a b = (if pow2 d \<le> q then d else d - 1)"
    using floor_log2_test [OF assms(2), of d a]
    by (simp add: floor_log2_def Let_def d_def [symmetric] q_def)
  show "pow2 (floor_log2 a b) \<le> (of_nat a / of_nat b :: rat)"
    using e lo by (auto simp: q_def [symmetric])
  show "(of_nat a / of_nat b :: rat) < pow2 (floor_log2 a b + 1)"
    using e hi by (auto simp: q_def [symmetric])
qed


lemma round_ratio_error:
  assumes "0 < a" "0 < b"
    and "pow2 (- 1022) \<le> (of_nat a / of_nat b :: rat)"
    and "(of_nat a / of_nat b :: rat) < pow2 1023"
  shows "\<exists>s p. round_ratio a b = Finite s p \<and> 0 < s \<and>
           \<bar>of_nat s * pow2 p - of_nat a / of_nat b\<bar> \<le> (of_nat a / of_nat b) / 2 ^ 53"
proof -
  define q :: rat where "q = of_nat a / of_nat b"
  define e where "e = floor_log2 a b"
  define p where "p = e - 52"
  define s where "s = (if 0 \<le> p then round_half_even a (b * 2 ^ nat p)
                       else round_half_even (a * 2 ^ nat (- p)) b)"
  have eb: "pow2 e \<le> q" "q < pow2 (e + 1)"
    using floor_log2_bounds [OF assms(1,2)] by (simp_all add: e_def q_def)
  have "pow2 (- 1022) < pow2 (e + 1)" using assms(3) eb(2) by (simp add: q_def)
  then have e1: "- 1023 < e" using pow2_less_imp [of "- 1022" "e + 1"] by simp
  have "pow2 e < pow2 1023" using assms(4) eb(1) by (simp add: q_def)
  then have e2: "e < 1023" by (rule pow2_less_imp)
  have pm: "max (e - 52) (- 1074) = p" using e1 by (simp add: p_def)
  have x: "\<bar>of_nat s - q / pow2 p\<bar> \<le> 1 / 2"
  proof (cases "0 \<le> p")
    case True
    have "(of_nat a / of_nat (b * 2 ^ nat p) :: rat) = q / pow2 p"
      using True by (simp add: q_def pow2_def)
    then show ?thesis
      using True assms(2) round_half_even_error [of "b * 2 ^ nat p" a] by (simp add: s_def)
  next
    case False
    have "(of_nat (a * 2 ^ nat (- p)) / of_nat b :: rat) = q / pow2 p"
      using False by (simp add: q_def pow2_def)
    then show ?thesis
      using False assms(2) round_half_even_error [of b "a * 2 ^ nat (- p)"] by (simp add: s_def)
  qed
  have pp: "0 < pow2 p" by (rule pow2_pos)
  have err: "\<bar>of_nat s * pow2 p - q\<bar> \<le> pow2 p / 2"
  proof -
    have "of_nat s * pow2 p - q = (of_nat s - q / pow2 p) * pow2 p"
      using pp by (simp add: field_simps)
    then have "\<bar>of_nat s * pow2 p - q\<bar> = \<bar>of_nat s - q / pow2 p\<bar> * \<bar>pow2 p\<bar>"
      by (simp only: abs_mult)
    also have "\<dots> = \<bar>of_nat s - q / pow2 p\<bar> * pow2 p"
      using pp by simp
    also have "\<dots> \<le> (1 / 2) * pow2 p"
      using x pp by (simp only: mult_le_cancel_right) simp
    finally show ?thesis by simp
  qed
  have half: "pow2 p / 2 = pow2 e / 2 ^ 53"
  proof -
    have "pow2 e = pow2 p * pow2 52" by (simp add: pow2_add [symmetric] p_def)
    then show ?thesis by (simp add: pow2_def)
  qed
  have bound: "\<bar>of_nat s * pow2 p - q\<bar> \<le> q / 2 ^ 53"
    using err eb(1) by (simp add: half divide_right_mono order_trans)
  have qpos: "0 < q" using assms(1,2) by (simp add: q_def)
  have spos: "0 < s"
  proof (rule ccontr)
    assume "\<not> 0 < s"
    then have "s = 0" by simp
    with bound have "q \<le> q / 2 ^ 53" by simp
    with qpos show False by (simp add: field_simps)
  qed
  have sle: "s \<le> 2 ^ 53"
  proof -
    have "q / pow2 p < pow2 (e + 1) / pow2 p" using eb(2) pp by (simp add: divide_strict_right_mono)
    also have "pow2 (e + 1) / pow2 p = 2 ^ 53"
    proof -
      have "e + 1 = p + 53" by (simp add: p_def)
      then have "pow2 (e + 1) = pow2 p * pow2 53" by (simp only: pow2_add)
      then show ?thesis using pp by (simp add: pow2_def)
    qed
    finally have y: "q / pow2 p < 2 ^ 53" .
    have "(of_nat s :: rat) < 2 ^ 53 + 1" using x y by linarith
    moreover have "(of_nat (2 ^ 53 + 1 :: nat) :: rat) = 2 ^ 53 + 1" by simp
    ultimately have "(of_nat s :: rat) < of_nat (2 ^ 53 + 1 :: nat)" by (simp only:)
    then have "s < 2 ^ 53 + 1" by (simp only: of_nat_less_iff)
    then show ?thesis by simp
  qed
  have r: "round_ratio a b =
      (if s = 2 ^ 53 then (if 971 < p + 1 then Infinity else Finite (2 ^ 52) (p + 1))
       else if 971 < p then Infinity else Finite s p)"
    by (simp add: round_ratio_def Let_def e_def [symmetric] pm s_def)
  have p2: "p + 1 \<le> 971" using e2 by (simp add: p_def)
  show ?thesis
  proof (cases "s = 2 ^ 53")
    case True
    have "pow2 (p + 1) = pow2 p * pow2 1" by (simp only: pow2_add)
    moreover have "pow2 1 = 2" by (simp add: pow2_def)
    ultimately have "(of_nat (2 ^ 52) :: rat) * pow2 (p + 1) = of_nat s * pow2 p"
      by (simp add: True)
    then show ?thesis
      using r True p2 bound by (simp add: q_def [symmetric])
  next
    case False
    then show ?thesis
      using r p2 bound spos by (simp add: q_def [symmetric])
  qed
qed


lemma round_half_even_whole: "round_half_even n (Suc 0) = n"
  by (simp add: round_half_even_def)

lemma round_ratio_eq:
  assumes "p = max (floor_log2 a b - 52) (- 1074)"
    and "s = (if 0 \<le> p then round_half_even a (b * 2 ^ nat p)
              else round_half_even (a * 2 ^ nat (- p)) b)"
    and "s < 2 ^ 53" "p \<le> 971"
  shows "round_ratio a b = Finite s p"
  using assms(3,4) unfolding round_ratio_def Let_def assms(1) [symmetric] assms(2) [symmetric]
  by simp

lemma number_exact:
  assumes "0 < n" "n < 2 ^ 53"
  shows "\<exists>s p. number n = Finite s p \<and> 0 < s \<and> (of_nat s * pow2 p :: rat) = of_nat n"
proof -
  define e where "e = floor_log2 n 1"
  define p where "p = e - 52"
  have eb: "pow2 e \<le> of_nat n" "(of_nat n :: rat) < pow2 (e + 1)"
    using floor_log2_bounds [OF assms(1), of 1] by (simp_all add: e_def)
  have "(1::rat) \<le> of_nat n" using assms(1) by simp
  then have "pow2 0 < pow2 (e + 1)" using eb(2) by (simp add: pow2_def)
  then have e0: "0 \<le> e" using pow2_less_imp [of 0 "e + 1"] by simp
  have "(of_nat n :: rat) < of_nat (2 ^ 53 :: nat)" using assms(2) by (simp only: of_nat_less_iff)
  then have "(of_nat n :: rat) < pow2 53" by (simp add: pow2_def)
  then have "pow2 e < pow2 53" using eb(1) by simp
  then have e1: "e < 53" by (rule pow2_less_imp)
  have p0: "p \<le> 0" "- 52 \<le> p" using e0 e1 by (simp_all add: p_def)
  have pm: "max (e - 52) (- 1074) = p" using e0 by (simp add: p_def)
  define s where "s = n * 2 ^ nat (- p)"
  have sv: "(of_nat s * pow2 p :: rat) = of_nat n"
    using p0 by (cases "p = 0") (simp_all add: s_def pow2_def)
  have s1: "(if 0 \<le> p then round_half_even n (1 * 2 ^ nat p)
             else round_half_even (n * 2 ^ nat (- p)) 1) = s"
    using p0 by (cases "p = 0") (simp_all add: s_def round_half_even_whole)
  have "(of_nat s :: rat) * pow2 p < pow2 (e + 1)" using sv eb(2) by simp
  moreover have "e + 1 = 53 + p" by (simp add: p_def)
  then have "pow2 (e + 1) = pow2 53 * pow2 p" by (simp only: pow2_add)
  ultimately have "(of_nat s :: rat) < pow2 53" using pow2_pos [of p] by simp
  then have "(of_nat s :: rat) < of_nat (2 ^ 53 :: nat)" by (simp add: pow2_def)
  then have sl: "s < 2 ^ 53" by (simp only: of_nat_less_iff)
  have sp: "0 < s" using assms(1) by (simp add: s_def)
  have pm': "p = max (floor_log2 n 1 - 52) (- 1074)"
    using pm by (simp only: e_def)
  have "round_ratio n 1 = Finite s p"
    using pm' s1 [symmetric] sl by (rule round_ratio_eq) (use p0 in simp)
  then show ?thesis using assms(1) sp sv by (simp add: number_def)
qed

lemma pow2_quotient: "(of_nat (2 ^ nat k) / of_nat (2 ^ nat (- k)) :: rat) = pow2 k"
  by (simp add: pow2_def)

lemma pow2_diff: "pow2 (j - k) = pow2 j / pow2 k"
proof -
  have "pow2 j = pow2 (j - k) * pow2 k" by (simp add: pow2_add [symmetric])
  then show ?thesis using pow2_pos [of k] by simp
qed

lemma js_divide_error:
  assumes "0 < s1" "0 < s2"
    and "x = of_nat s1 * pow2 p1" "y = of_nat s2 * pow2 p2"
    and "pow2 (- 1022) \<le> x / y" "x / y < pow2 1023"
  shows "\<exists>s p. js_divide (Finite s1 p1) (Finite s2 p2) = Finite s p \<and> 0 < s \<and>
           \<bar>of_nat s * pow2 p - x / y\<bar> \<le> (x / y) / 2 ^ 53"
proof -
  define a where "a = s1 * 2 ^ nat (p1 - p2)"
  define b where "b = s2 * 2 ^ nat (p2 - p1)"
  have ab: "0 < a" "0 < b" using assms(1,2) by (simp_all add: a_def b_def)
  have "(of_nat a / of_nat b :: rat) =
        (of_nat s1 / of_nat s2) * (of_nat (2 ^ nat (p1 - p2)) / of_nat (2 ^ nat (- (p1 - p2))))"
    by (simp add: a_def b_def)
  also have "\<dots> = (of_nat s1 / of_nat s2) * pow2 (p1 - p2)"
    by (simp only: pow2_quotient)
  also have "\<dots> = x / y"
    by (simp add: assms(3,4) pow2_diff)
  finally have q: "(of_nat a / of_nat b :: rat) = x / y" .
  have "js_divide (Finite s1 p1) (Finite s2 p2) = round_ratio a b"
    using assms(1,2) by (simp add: a_def b_def)
  then show ?thesis
    using round_ratio_error [OF ab] assms(5,6) by (simp add: q)
qed

lemma js_times_error:
  assumes "0 < s1" "0 < s2"
    and "x = of_nat s1 * pow2 p1" "y = of_nat s2 * pow2 p2"
    and "pow2 (- 1022) \<le> x * y" "x * y < pow2 1023"
  shows "\<exists>s p. js_times (Finite s1 p1) (Finite s2 p2) = Finite s p \<and> 0 < s \<and>
           \<bar>of_nat s * pow2 p - x * y\<bar> \<le> (x * y) / 2 ^ 53"
proof -
  define a where "a = s1 * s2 * 2 ^ nat (p1 + p2)"
  define b :: nat where "b = 2 ^ nat (- (p1 + p2))"
  have ab: "0 < a" "0 < b" using assms(1,2) by (simp_all add: a_def b_def)
  have "(of_nat a / of_nat b :: rat) =
        (of_nat s1 * of_nat s2) * (of_nat (2 ^ nat (p1 + p2)) / of_nat (2 ^ nat (- (p1 + p2))))"
    by (simp add: a_def b_def)
  also have "\<dots> = (of_nat s1 * of_nat s2) * pow2 (p1 + p2)"
    by (simp only: pow2_quotient)
  also have "\<dots> = x * y"
    by (simp add: assms(3,4) pow2_add)
  finally have q: "(of_nat a / of_nat b :: rat) = x * y" .
  have "js_times (Finite s1 p1) (Finite s2 p2) = round_ratio a b"
    using assms(1,2) by (simp add: a_def b_def)
  then show ?thesis
    using round_ratio_error [OF ab] assms(5,6) by (simp add: q)
qed


lemma averageMatchPercentage_error:
  assumes "0 < t" "m \<le> t" "t < 2 ^ 53"
  shows "\<exists>s p. averageMatchPercentage m t = Finite s p \<and>
           \<bar>of_nat s * pow2 p - 100 * of_nat m / of_nat t\<bar> \<le>
             (100 * of_nat m / of_nat t) / 2 ^ 51"
proof -
  obtain s2 p2 where t: "number t = Finite s2 p2" "0 < s2" "(of_nat s2 * pow2 p2 :: rat) = of_nat t"
    using number_exact [OF assms(1,3)] by blast
  obtain s4 p4 where h: "number 100 = Finite s4 p4" "0 < s4" "(of_nat s4 * pow2 p4 :: rat) = of_nat 100"
    using number_exact [of 100] by auto
  show ?thesis
  proof (cases "m = 0")
    case True
    then show ?thesis
      using assms(1) t(1,2) h(1) by (simp add: averageMatchPercentage_def number_def js_zero_def)
  next
    case False
    then have mp: "0 < m" by simp
    have "m < 2 ^ 53" using assms(2,3) by simp
    then obtain s1 p1 where m: "number m = Finite s1 p1" "0 < s1"
        "(of_nat s1 * pow2 p1 :: rat) = of_nat m"
      using number_exact [OF mp] by blast
    define q :: rat where "q = of_nat m / of_nat t"
    have tp: "(0::rat) < of_nat t" using assms(1) by simp
    have q1: "q \<le> 1" using assms(1,2) by (simp add: q_def)
    have "(of_nat t :: rat) < of_nat (2 ^ 53 :: nat)" using assms(3) by (simp only: of_nat_less_iff)
    then have tl: "(of_nat t :: rat) < 2 ^ 53" by simp
    have "(1::rat) \<le> of_nat m" using mp by simp
    then have "1 / of_nat t \<le> q" using tp by (simp add: q_def divide_right_mono)
    moreover have "(1::rat) / 2 ^ 53 < 1 / of_nat t" using tl tp by (simp add: field_simps)
    ultimately have q0: "1 / 2 ^ 53 < q" by simp
    have qpos: "0 < q" using q0 by (rule less_trans [rotated]) simp
    have qe: "q = (of_nat s1 * pow2 p1) / (of_nat s2 * pow2 p2)"
      by (simp only: m(3) t(3) q_def)
    have lo1: "pow2 (- 1022) \<le> q" using q0 by (simp add: pow2_def)
    have hi1: "q < pow2 1023" using q1 by (simp add: pow2_def)
    obtain s3 p3 where d: "js_divide (Finite s1 p1) (Finite s2 p2) = Finite s3 p3" "0 < s3"
        "\<bar>of_nat s3 * pow2 p3 - q\<bar> \<le> q / 2 ^ 53"
      using js_divide_error [OF m(2) t(2) refl refl] lo1 hi1 unfolding qe by blast
    define v :: rat where "v = of_nat s3 * pow2 p3"
    define u :: rat where "u = 1 / 2 ^ 53"
    define z :: rat where "z = q * u"
    have u0: "0 \<le> u" "u \<le> 1" by (simp_all add: u_def)
    have z0: "0 \<le> z" using qpos u0(1) by (simp add: z_def)
    have zq: "z \<le> q / 2" using qpos by (simp add: z_def u_def)
    have d3: "\<bar>v - q\<bar> \<le> z" using d(3) by (simp add: v_def z_def u_def)
    have v1: "q - z \<le> v" "v \<le> q + z" using d3 by linarith+
    have uq: "u < q" using q0 by (simp add: u_def)
    have "u / 2 \<le> v" using v1(1) zq uq by linarith
    then have vlo: "1 / 2 ^ 54 \<le> v" by (simp add: u_def)
    have vhi: "v \<le> 2" using v1(2) zq q1 by linarith
    have lo2: "pow2 (- 1022) \<le> v * 100" using vlo by (simp add: pow2_def)
    have hi2: "v * 100 < pow2 1023" using vhi by (simp add: pow2_def)
    have h3: "(100::rat) = of_nat s4 * pow2 p4" using h(3) by simp
    obtain s5 p5 where f: "js_times (Finite s3 p3) (Finite s4 p4) = Finite s5 p5"
        "\<bar>of_nat s5 * pow2 p5 - v * 100\<bar> \<le> (v * 100) / 2 ^ 53"
      using js_times_error [OF d(2) h(2) v_def h3] lo2 hi2 by blast
    define w :: rat where "w = of_nat s5 * pow2 p5"
    have a: "averageMatchPercentage m t = Finite s5 p5"
      unfolding averageMatchPercentage_def m(1) t(1) h(1) d(1) f(1) using assms(1) by simp
    have w1: "\<bar>w - 100 * v\<bar> \<le> 100 * (v * u)" using f(2) by (simp add: w_def u_def mult.commute)
    have "v * u \<le> (q + z) * u" using v1(2) u0(1) by (rule mult_right_mono)
    also have "\<dots> = z + z * u" by (simp add: z_def algebra_simps)
    also have "\<dots> \<le> z + z" using z0 u0(2) by (simp add: mult_left_le)
    finally have vu: "v * u \<le> 2 * z" by simp
    have "\<bar>w - 100 * q\<bar> \<le> 300 * z" using w1 vu d3 by linarith
    also have "\<dots> \<le> (100 * q) / 2 ^ 51" using qpos by (simp add: z_def u_def)
    finally have "\<bar>w - 100 * q\<bar> \<le> (100 * q) / 2 ^ 51" .
    then show ?thesis using a by (simp add: w_def q_def)
  qed
qed

section \<open>Substring search\<close>

lemma take_eq_iff_prefix: "(take (length s) t = s) = (\<exists>post. t = s @ post)"
  by (metis append_eq_conv_conj append_take_drop_id)

lemma str_includes_iff: "str_includes t s = (\<exists>pre post. t = pre @ s @ post)"
proof (induction t)
  case Nil
  then show ?case by auto
next
  case (Cons c cs)
  have "(\<exists>pre post. c # cs = pre @ s @ post) =
        ((\<exists>post. c # cs = s @ post) \<or> (\<exists>pre post. cs = pre @ s @ post))"
  proof
    assume "\<exists>pre post. c # cs = pre @ s @ post"
    then obtain pre post where e: "c # cs = pre @ s @ post" by blast
    show "(\<exists>post. c # cs = s @ post) \<or> (\<exists>pre post. cs = pre @ s @ post)"
    proof (cases pre)
      case Nil
      with e show ?thesis by auto
    next
      case (Cons a pre')
      with e have "cs = pre' @ s @ post" by simp
      then show ?thesis by blast
    qed
  next
    assume "(\<exists>post. c # cs = s @ post) \<or> (\<exists>pre post. cs = pre @ s @ post)"
    then show "\<exists>pre post. c # cs = pre @ s @ post"
    proof
      assume "\<exists>post. c # cs = s @ post"
      then obtain post where "c # cs = [] @ s @ post" by auto
      then show ?thesis by blast
    next
      assume "\<exists>pre post. cs = pre @ s @ post"
      then obtain pre post where "cs = pre @ s @ post" by blast
      then have "c # cs = (c # pre) @ s @ post" by simp
      then show ?thesis by blast
    qed
  qed
  with Cons show ?case
    by (simp only: str_includes.simps take_eq_iff_prefix)
qed

lemma str_includes_empty: "str_includes t []"
  by (cases t) simp_all

section \<open>Deduplication\<close>

lemma set_deduplicated: "set (deduplicated xs) = set xs"
  by (induction xs rule: deduplicated.induct) auto

lemma distinct_deduplicated: "distinct (deduplicated xs)"
  by (induction xs rule: deduplicated.induct) (auto simp: set_deduplicated)

lemma filter_deduplicated: "filter P (deduplicated xs) = deduplicated (filter P xs)"
proof (induction xs rule: deduplicated.induct)
  case 1
  show ?case by simp
next
  case (2 x xs)
  have c: "filter (\<lambda>y. y \<noteq> x) (filter P xs) = filter P (filter (\<lambda>y. y \<noteq> x) xs)"
    by (simp add: conj_commute)
  show ?case
  proof (cases "P x")
    case True
    with 2 c show ?thesis by simp
  next
    case False
    then have "filter P (filter (\<lambda>y. y \<noteq> x) xs) = filter P xs"
      by (auto intro: filter_cong)
    with False 2 show ?thesis by simp
  qed
qed

section \<open>The insertion-ordered map\<close>

lemma Map_get_Map_set: "Map_get (Map_set m k v) k' = (if k' = k then Some v else Map_get m k')"
  by (induction m k v rule: Map_set.induct) auto

lemma Map_keys_Map_set:
  "Map_keys (Map_set m k v) = (if k \<in> set (Map_keys m) then Map_keys m else Map_keys m @ [k])"
  by (induction m k v rule: Map_set.induct) (auto simp: Map_keys_def)

lemma Map_set_tabulate:
  "Map_set (tabulate f ks) k (f k) = tabulate f (if k \<in> set ks then ks else ks @ [k])"
  by (induction ks) (auto simp: tabulate_def)

lemma Map_get_tabulate: "Map_get (tabulate f ks) k = (if k \<in> set ks then Some (f k) else None)"
  by (induction ks) (auto simp: tabulate_def)

lemma Map_keys_tabulate: "Map_keys (tabulate f ks) = ks"
  by (simp add: tabulate_def Map_keys_def comp_def)

lemma Map_values_tabulate: "Map_values (tabulate f ks) = map f ks"
  by (simp add: tabulate_def Map_values_def comp_def)

section \<open>The keyword matcher\<close>

lemma checkKeywords_loop_tabulate:
  "checkKeywords_loop lt kws (tabulate (\<lambda>k. str_includes lt (toLowerCase k)) ks) =
   tabulate (\<lambda>k. str_includes lt (toLowerCase k))
     (ks @ deduplicated (filter (\<lambda>k. k \<notin> set ks) kws))"
proof (induction kws arbitrary: ks)
  case Nil
  show ?case by simp
next
  case (Cons k rest)
  let ?f = "\<lambda>k. str_includes lt (toLowerCase k)"
  have ms: "Map_set (tabulate ?f ks) k (str_includes lt (toLowerCase k)) =
            tabulate ?f (if k \<in> set ks then ks else ks @ [k])"
    using Map_set_tabulate [of ?f ks k] by simp
  show ?case
  proof (cases "k \<in> set ks")
    case True
    then show ?thesis using Cons [of ks] by (simp add: ms)
  next
    case False
    have "filter (\<lambda>y. y \<noteq> k) (filter (\<lambda>k. k \<notin> set ks) rest) =
          filter (\<lambda>ka. ka \<notin> set (ks @ [k])) rest"
      by (auto intro: filter_cong)
    with False show ?thesis using Cons [of "ks @ [k]"] by (simp add: ms)
  qed
qed

lemma checkKeywords_tabulate:
  "checkKeywords kws text =
   tabulate (\<lambda>k. str_includes (toLowerCase text) (toLowerCase k)) (deduplicated kws)"
  using checkKeywords_loop_tabulate [of "toLowerCase text" kws "[]"]
  by (simp add: checkKeywords_def tabulate_def)

lemma Map_get_checkKeywords:
  "Map_get (checkKeywords kws text) k =
   (if k \<in> set kws then Some (str_includes (toLowerCase text) (toLowerCase k)) else None)"
  by (simp add: checkKeywords_tabulate Map_get_tabulate set_deduplicated)

lemma count_true_removeAll:
  "x \<in> set xs \<Longrightarrow> distinct xs \<Longrightarrow> P x \<Longrightarrow>
   length (filter P xs) = Suc (length (filter P (removeAll x xs)))"
  by (induction xs) (auto simp: distinct_removeAll)

lemma removeAll_deduplicated: "removeAll x (deduplicated xs) = deduplicated (removeAll x xs)"
  by (simp add: removeAll_filter_not_eq filter_deduplicated)

lemma foundCount_checkKeywords:
  "foundCount (checkKeywords kws text) =
   length (filter (\<lambda>k. str_includes (toLowerCase text) (toLowerCase k)) (deduplicated kws))"
  by (simp add: foundCount_def checkKeywords_tabulate Map_values_tabulate filter_map comp_def)

section \<open>The serializer\<close>

lemma row_loop_eq:
  "row_loop r kws row = row @ concat (map (\<lambda>k. CHR '','' # statusText (status_of r k)) kws)"
  by (induction kws arbitrary: row) (simp_all add: status_of_def)

lemma length_split_on: "length (split_on d s) = Suc (length (filter (\<lambda>c. c = d) s))"
proof (induction s)
  case Nil
  show ?case by simp
next
  case (Cons c cs)
  have "length (tl (split_on d cs)) = length (filter (\<lambda>c. c = d) cs)"
    using Cons by simp
  with Cons show ?case by simp
qed

lemma commas_statusText: "filter (\<lambda>c. c = CHR '','') (statusText b) = []"
  by (simp add: statusText_def)

lemma commas_row_tail:
  "length (filter (\<lambda>c. c = CHR '','')
     (concat (map (\<lambda>k. CHR '','' # statusText (status_of r k)) kws))) = length kws"
  by (induction kws) (simp_all add: commas_statusText)

lemma column_count_csv_row:
  "CHR '','' \<notin> set (fileName r) \<Longrightarrow> column_count (csv_row kws r) = 1 + length kws"
proof -
  assume "CHR '','' \<notin> set (fileName r)"
  then have "filter (\<lambda>c. c = CHR '','') (fileName r) = []"
    by (auto simp: filter_empty_conv)
  then show ?thesis
    by (simp add: column_count_def length_split_on csv_row_def row_loop_eq commas_row_tail)
qed

lemma commas_join:
  "kws \<noteq> [] \<Longrightarrow> \<forall>k\<in>set kws. CHR '','' \<notin> set k \<Longrightarrow>
   length (filter (\<lambda>c. c = CHR '','') (join '','' kws)) = length kws - 1"
proof (induction "'',''" kws rule: join.induct)
  case 1
  then show ?case by simp
next
  case (2 x)
  then show ?case by (auto simp: filter_empty_conv)
next
  case (3 x y ys)
  then have "filter (\<lambda>c. c = CHR '','') x = []" by (auto simp: filter_empty_conv)
  with 3 show ?case by simp
qed

lemma column_count_header:
  "kws \<noteq> [] \<Longrightarrow> \<forall>k\<in>set kws. CHR '','' \<notin> set k \<Longrightarrow>
   column_count (''Case,'' @ searchHeaders kws) = 1 + length kws"
  using commas_join [of kws]
  by (cases kws) (simp_all add: column_count_def length_split_on searchHeaders_def)

lemma last_join:
  "xs \<noteq> [] \<Longrightarrow> last xs \<noteq> [] \<Longrightarrow> join sep xs \<noteq> [] \<and> last (join sep xs) = last (last xs)"
  by (induction sep xs rule: join.induct) auto

lemma last_csv_row:
  "kws \<noteq> [] \<Longrightarrow> csv_row kws r \<noteq> [] \<and> last (csv_row kws r) = CHR ''d''"
proof -
  assume "kws \<noteq> []"
  then obtain ks k where "kws = ks @ [k]" by (metis rev_exhaust)
  then show ?thesis
    by (simp add: csv_row_def row_loop_eq statusText_def)
qed

lemma csv_row_no_keywords: "csv_row [] r = fileName r"
  by (simp add: csv_row_def)

lemma convertToCsv_last:
  assumes "results \<noteq> []" "csv_row kws (last results) \<noteq> []"
  shows "last (convertToCsv kws results) = last (csv_row kws (last results))"
proof -
  have r: "rows kws results \<noteq> []" "last (rows kws results) = csv_row kws (last results)"
    using assms(1) by (simp_all add: rows_def last_map)
  with assms(2) have "join [newline] (rows kws results) \<noteq> []"
    "last (join [newline] (rows kws results)) = last (csv_row kws (last results))"
    using last_join [of "rows kws results" "[newline]"] by simp_all
  then show ?thesis by (simp add: convertToCsv_def)
qed

section \<open>The processing loop and the run\<close>

lemma process_file_success:
  "recognize w (path_join IMAGE_DIR f) = Inr text \<Longrightarrow>
   process_file w kws f st =
     st\<lparr>allImageResults := allImageResults st @
           [\<lparr>fileName = f, keywordStatus = checkKeywords kws text\<rparr>],
        totalSuccessfulMatches := totalSuccessfulMatches st + foundCount (checkKeywords kws text),
        console := console st @ [file_entry w kws f]\<rparr>"
  by (simp add: process_file_def log_def file_entry_def Let_def)

lemma process_file_failure:
  "recognize w (path_join IMAGE_DIR f) = Inl message \<Longrightarrow>
   process_file w kws f st = st\<lparr>console := console st @ [ErrorProcessing f message]\<rparr> \<and>
   file_entry w kws f = ErrorProcessing f message"
  by (simp add: process_file_def log_def file_entry_def Let_def)

lemma console_process_file:
  "console (process_file w kws f st) = console st @ [file_entry w kws f]"
  by (cases "recognize w (path_join IMAGE_DIR f)")
    (simp_all add: process_file_success process_file_failure)

lemma outputFile_process_file: "outputFile (process_file w kws f st) = outputFile st"
  by (cases "recognize w (path_join IMAGE_DIR f)")
    (simp_all add: process_file_success process_file_failure)

lemma names_process_file:
  "map fileName (allImageResults (process_file w kws f st)) =
   map fileName (allImageResults st) @
     (if isl (recognize w (path_join IMAGE_DIR f)) then [] else [f])"
  by (cases "recognize w (path_join IMAGE_DIR f)")
    (simp_all add: process_file_success process_file_failure)

lemma console_process_loop:
  "console (process_loop w kws files st) = console st @ map (file_entry w kws) files"
  by (induction files arbitrary: st) (simp_all add: console_process_file)

lemma outputFile_process_loop: "outputFile (process_loop w kws files st) = outputFile st"
  by (induction files arbitrary: st) (simp_all add: outputFile_process_file)

lemma names_process_loop:
  "map fileName (allImageResults (process_loop w kws files st)) =
   map fileName (allImageResults st) @
     filter (\<lambda>f. \<not> isl (recognize w (path_join IMAGE_DIR f))) files"
  by (induction files arbitrary: st) (simp_all add: names_process_file)

lemma matches_process_file:
  "[] \<in> set kws \<Longrightarrow>
   length (allImageResults st) \<le> totalSuccessfulMatches st \<Longrightarrow>
   length (allImageResults (process_file w kws f st)) \<le>
     totalSuccessfulMatches (process_file w kws f st)"
proof (cases "recognize w (path_join IMAGE_DIR f)")
  case (Inl msg)
  assume "length (allImageResults st) \<le> totalSuccessfulMatches st"
  with Inl show ?thesis by (simp add: process_file_failure)
next
  case (Inr recognized)
  assume e: "[] \<in> set kws"
    and l: "length (allImageResults st) \<le> totalSuccessfulMatches st"
  have "str_includes (toLowerCase recognized) (toLowerCase [])"
    by (simp add: toLowerCase_def str_includes_empty)
  with e have "filter (\<lambda>k. str_includes (toLowerCase recognized) (toLowerCase k)) (deduplicated kws) \<noteq> []"
    by (auto simp: filter_empty_conv set_deduplicated)
  then have "1 \<le> foundCount (checkKeywords kws recognized)"
    by (simp add: foundCount_checkKeywords Suc_le_eq)
  with l Inr show ?thesis by (simp add: process_file_success)
qed

lemma matches_process_loop:
  "[] \<in> set kws \<Longrightarrow>
   length (allImageResults st) \<le> totalSuccessfulMatches st \<Longrightarrow>
   length (allImageResults (process_loop w kws files st)) \<le>
     totalSuccessfulMatches (process_loop w kws files st)"
  by (induction files arbitrary: st) (simp_all add: matches_process_file)

lemma processImages_listing_fails:
  "readdirSync w IMAGE_DIR = Inl message \<Longrightarrow>
   processImages w kws = log (ErrorFatal message) initial_state"
  by (simp add: processImages_def)

lemma processImages_no_images:
  "readdirSync w IMAGE_DIR = Inr files \<Longrightarrow> filter isSupportedImage files = [] \<Longrightarrow>
   processImages w kws =
     log (LogNoSupportedImages (join '', '' SUPPORTED_EXTENSIONS) IMAGE_DIR) initial_state"
  by (simp add: processImages_def)

lemma processImages_write_fails:
  "readdirSync w IMAGE_DIR = Inr files \<Longrightarrow> filter isSupportedImage files \<noteq> [] \<Longrightarrow>
   st2 = process_loop w kws (filter isSupportedImage files)
           (loop_start (length (filter isSupportedImage files))) \<Longrightarrow>
   writeFileSync w OUTPUT_FILE (convertToCsv kws (allImageResults st2)) = Some message \<Longrightarrow>
   processImages w kws = log (ErrorFatal message) st2"
  by (simp add: processImages_def loop_start_def Let_def)

lemma processImages_written:
  "readdirSync w IMAGE_DIR = Inr files \<Longrightarrow> filter isSupportedImage files \<noteq> [] \<Longrightarrow>
   st2 = process_loop w kws (filter isSupportedImage files)
           (loop_start (length (filter isSupportedImage files))) \<Longrightarrow>
   writeFileSync w OUTPUT_FILE (convertToCsv kws (allImageResults st2)) = None \<Longrightarrow>
   processImages w kws =
     st2\<lparr>outputFile := Some (convertToCsv kws (allImageResults st2)),
         console := console st2 @
           summary (length (filter isSupportedImage files))
             (length (filter isSupportedImage files) * length kws)
             (totalSuccessfulMatches st2)
             (averageMatchPercentage (totalSuccessfulMatches st2)
                (length (filter isSupportedImage files) * length kws))\<rparr>"
  by (simp add: processImages_def loop_start_def Let_def)

lemma loop_start_fields:
  "allImageResults (loop_start n) = []"
  "totalSuccessfulMatches (loop_start n) = 0"
  "console (loop_start n) = [LogStarting IMAGE_DIR, LogFound n, LogSeparator]"
  "outputFile (loop_start n) = None"
  by (simp_all add: loop_start_def log_def initial_state_def)

lemma processImages_results:
  assumes "readdirSync w IMAGE_DIR = Inr files"
    and "filter isSupportedImage files \<noteq> []"
    and "st2 = process_loop w kws (filter isSupportedImage files)
           (loop_start (length (filter isSupportedImage files)))"
  shows "allImageResults (processImages w kws) = allImageResults st2"
    and "totalSuccessfulMatches (processImages w kws) = totalSuccessfulMatches st2"
proof -
  show "allImageResults (processImages w kws) = allImageResults st2"
  proof (cases "writeFileSync w OUTPUT_FILE (convertToCsv kws (allImageResults st2))")
    case None
    then show ?thesis using processImages_written [OF assms] by simp
  next
    case (Some msg)
    then show ?thesis using processImages_write_fails [OF assms] by (simp add: log_def)
  qed
  show "totalSuccessfulMatches (processImages w kws) = totalSuccessfulMatches st2"
  proof (cases "writeFileSync w OUTPUT_FILE (convertToCsv kws (allImageResults st2))")
    case None
    then show ?thesis using processImages_written [OF assms] by simp
  next
    case (Some msg)
    then show ?thesis using processImages_write_fails [OF assms] by (simp add: log_def)
  qed
qed

lemma file_entry_not_fatal: "ErrorFatal m \<notin> set (map (file_entry w kws) files)"
  by (induction files) (simp_all add: file_entry_def split: sum.splits)

lemma partial_failure_parts:
  assumes "readdirSync w IMAGE_DIR = Inr files"
    and "imageFiles = filter isSupportedImage files"
    and "st = processImages w keywords"
  shows "\<forall>f\<in>set imageFiles. \<forall>m. recognize w (path_join IMAGE_DIR f) = Inl m \<longrightarrow>
           ErrorProcessing f m \<in> set (console st) \<and>
           f \<notin> set (map fileName (allImageResults st))"
    and "map fileName (allImageResults st) =
           filter (\<lambda>f. \<not> isl (recognize w (path_join IMAGE_DIR f))) imageFiles"
    and "length (allImageResults st) \<le> length imageFiles"
    and "\<forall>m. ErrorFatal m \<in> set (console st) \<longrightarrow>
           writeFileSync w OUTPUT_FILE (convertToCsv keywords (allImageResults st)) = Some m"
    and "imageFiles \<noteq> [] \<and>
         writeFileSync w OUTPUT_FILE (convertToCsv keywords (allImageResults st)) = None \<longrightarrow>
           outputFile st = Some (convertToCsv keywords (allImageResults st))"
proof -
  define st2 where "st2 = process_loop w keywords imageFiles (loop_start (length imageFiles))"
  have names2: "map fileName (allImageResults st2) =
      filter (\<lambda>f. \<not> isl (recognize w (path_join IMAGE_DIR f))) imageFiles"
    by (simp add: st2_def names_process_loop loop_start_fields)
  have console2: "console st2 =
      [LogStarting IMAGE_DIR, LogFound (length imageFiles), LogSeparator] @
      map (file_entry w keywords) imageFiles"
    by (simp add: st2_def console_process_loop loop_start_fields)
  show names: "map fileName (allImageResults st) =
      filter (\<lambda>f. \<not> isl (recognize w (path_join IMAGE_DIR f))) imageFiles"
  proof (cases "imageFiles = []")
    case True
    then show ?thesis
      using assms processImages_no_images [of w files "keywords"]
      by (simp add: log_def initial_state_def)
  next
    case False
    then show ?thesis
      using assms names2 processImages_results(1) [of w files st2 "keywords"]
      by (simp add: st2_def)
  qed
  have "length (map fileName (allImageResults st)) \<le> length imageFiles"
    unfolding names by (rule length_filter_le)
  then show "length (allImageResults st) \<le> length imageFiles" by simp
  show "\<forall>f\<in>set imageFiles. \<forall>m. recognize w (path_join IMAGE_DIR f) = Inl m \<longrightarrow>
           ErrorProcessing f m \<in> set (console st) \<and>
           f \<notin> set (map fileName (allImageResults st))"
  proof (intro ballI allI impI)
    fix f m
    assume f: "f \<in> set imageFiles" and m: "recognize w (path_join IMAGE_DIR f) = Inl m"
    from f have "imageFiles \<noteq> []" by auto
    then have ne: "filter isSupportedImage files \<noteq> []" using assms(2) by simp
    have e: "file_entry w keywords f = ErrorProcessing f m"
      using m by (simp add: process_file_failure)
    with f have "ErrorProcessing f m \<in> set (console st2)"
      unfolding console2 by force
    moreover have "set (console st2) \<subseteq> set (console st)"
    proof (cases "writeFileSync w OUTPUT_FILE (convertToCsv keywords (allImageResults st2))")
      case None
      then show ?thesis
        using assms ne processImages_written [of w files st2 "keywords"]
        by (simp add: st2_def)
    next
      case (Some msg)
      then show ?thesis
        using assms ne processImages_write_fails [of w files st2 "keywords"]
        by (auto simp: st2_def log_def)
    qed
    moreover have "f \<notin> set (map fileName (allImageResults st))"
      unfolding names using m by simp
    ultimately show "ErrorProcessing f m \<in> set (console st) \<and>
        f \<notin> set (map fileName (allImageResults st))" by blast
  qed
  show "\<forall>m. ErrorFatal m \<in> set (console st) \<longrightarrow>
           writeFileSync w OUTPUT_FILE (convertToCsv keywords (allImageResults st)) = Some m"
  proof (cases "imageFiles = []")
    case True
    then show ?thesis
      using assms processImages_no_images [of w files "keywords"]
      by (simp add: log_def initial_state_def)
  next
    case False
    then have ne: "filter isSupportedImage files \<noteq> []" using assms(2) by simp
    have nf: "\<And>m. ErrorFatal m \<notin> set (console st2)"
      unfolding console2 using file_entry_not_fatal [of _ w "keywords" imageFiles] by simp
    show ?thesis
    proof (cases "writeFileSync w OUTPUT_FILE (convertToCsv keywords (allImageResults st2))")
      case None
      then have "console st = console st2 @
          summary (length imageFiles) (length imageFiles * length keywords)
            (totalSuccessfulMatches st2)
            (averageMatchPercentage (totalSuccessfulMatches st2)
               (length imageFiles * length keywords))"
        using assms ne processImages_written [of w files st2 "keywords"]
        by (simp add: st2_def)
      then show ?thesis using nf by (simp add: summary_def)
    next
      case (Some msg)
      then have "st = log (ErrorFatal msg) st2"
        using assms ne processImages_write_fails [of w files st2 "keywords"]
        by (simp add: st2_def)
      then show ?thesis using nf Some by (simp add: log_def)
    qed
  qed
  show "imageFiles \<noteq> [] \<and>
         writeFileSync w OUTPUT_FILE (convertToCsv keywords (allImageResults st)) = None \<longrightarrow>
           outputFile st = Some (convertToCsv keywords (allImageResults st))"
  proof
    assume a: "imageFiles \<noteq> [] \<and>
         writeFileSync w OUTPUT_FILE (convertToCsv keywords (allImageResults st)) = None"
    then have ne: "filter isSupportedImage files \<noteq> []" using assms(2) by simp
    have r: "allImageResults st = allImageResults st2"
      using assms ne processImages_results(1) [of w files st2 "keywords"]
      by (simp add: st2_def)
    with a have "writeFileSync w OUTPUT_FILE (convertToCsv keywords (allImageResults st2)) = None"
      by simp
    then show "outputFile st = Some (convertToCsv keywords (allImageResults st))"
      using assms ne processImages_written [of w files st2 "keywords"]
      by (simp add: st2_def)
  qed
qed

section \<open>File names of a run and the end of the written document\<close>

lemma last_dot_less: "last_dot p = Some i \<Longrightarrow> i < length p"
  by (induction p arbitrary: i) (auto split: option.splits if_splits)

lemma extname_suffix: "extname p \<noteq> [] \<Longrightarrow> p \<noteq> [] \<and> last (extname p) = last p"
proof -
  assume e: "extname p \<noteq> []"
  then obtain i where i: "last_dot p = Some i" "extname p = drop i p"
    by (auto simp: extname_def split: option.splits if_splits)
  then have "i < length p" by (simp add: last_dot_less)
  with i show ?thesis by auto
qed

lemma lower_char_newline: "lower_char c \<in> {CHR ''g'', CHR ''f''} \<Longrightarrow> c \<noteq> newline"
  by (auto simp: lower_char_def upper_case_letters_def lower_case_letters_def newline_def)

lemma supported_image_name: "isSupportedImage f \<Longrightarrow> f \<noteq> [] \<and> last f \<noteq> newline"
proof -
  assume "isSupportedImage f"
  then have m: "map lower_char (extname f) \<in> set SUPPORTED_EXTENSIONS"
    by (simp add: isSupportedImage_def array_includes_def toLowerCase_def)
  then have ne: "extname f \<noteq> []"
    by (auto simp: SUPPORTED_EXTENSIONS_def)
  have "last (map lower_char (extname f)) \<in> {CHR ''g'', CHR ''f''}"
    using m by (auto simp: SUPPORTED_EXTENSIONS_def)
  then have "lower_char (last (extname f)) \<in> {CHR ''g'', CHR ''f''}"
    using ne by (simp add: last_map)
  then have "last (extname f) \<noteq> newline" by (rule lower_char_newline)
  with ne show ?thesis using extname_suffix [of f] by simp
qed

lemma processed_names_supported:
  "r \<in> set (allImageResults (processImages w kws)) \<Longrightarrow> isSupportedImage (fileName r)"
proof (cases "readdirSync w IMAGE_DIR")
  case (Inl msg)
  assume "r \<in> set (allImageResults (processImages w kws))"
  with Inl show ?thesis by (simp add: processImages_listing_fails log_def initial_state_def)
next
  case (Inr files)
  assume r: "r \<in> set (allImageResults (processImages w kws))"
  then have "fileName r \<in> set (map fileName (allImageResults (processImages w kws)))"
    by simp
  then have "fileName r \<in> set (filter isSupportedImage files)"
    using partial_failure_parts(2) [OF Inr refl refl, of kws] by simp
  then show ?thesis by simp
qed

lemma csv_trailing_newline:
  "results = [] \<or> kws \<noteq> [] \<or>
     (fileName (last results) \<noteq> [] \<and> last (fileName (last results)) \<noteq> newline) \<Longrightarrow>
   ends_with_newline (convertToCsv kws results) = (results = [])"
proof (cases "results = []")
  case True
  then show ?thesis
    by (simp add: ends_with_newline_def convertToCsv_def header_def rows_def)
next
  case False
  assume h: "results = [] \<or> kws \<noteq> [] \<or>
     (fileName (last results) \<noteq> [] \<and> last (fileName (last results)) \<noteq> newline)"
  have "csv_row kws (last results) \<noteq> [] \<and> last (csv_row kws (last results)) \<noteq> newline"
  proof (cases "kws = []")
    case True
    with h False show ?thesis by (simp add: csv_row_no_keywords)
  next
    case False
    then show ?thesis using last_csv_row [of kws "last results"]
      by (simp add: newline_def)
  qed
  with False show ?thesis
    using convertToCsv_last [of results kws]
    by (simp add: ends_with_newline_def)
qed

lemma outputFile_processImages:
  "outputFile (processImages w kws) = Some csv \<Longrightarrow>
   csv = convertToCsv kws (allImageResults (processImages w kws))"
proof (cases "readdirSync w IMAGE_DIR")
  case (Inl msg)
  assume "outputFile (processImages w kws) = Some csv"
  with Inl show ?thesis by (simp add: processImages_listing_fails log_def initial_state_def)
next
  case (Inr files)
  assume o: "outputFile (processImages w kws) = Some csv"
  show ?thesis
  proof (cases "filter isSupportedImage files = []")
    case True
    with Inr o show ?thesis by (simp add: processImages_no_images log_def initial_state_def)
  next
    case False
    define st2 where "st2 = process_loop w kws (filter isSupportedImage files)
      (loop_start (length (filter isSupportedImage files)))"
    have n: "outputFile st2 = None"
      by (simp add: st2_def outputFile_process_loop loop_start_fields)
    show ?thesis
    proof (cases "writeFileSync w OUTPUT_FILE (convertToCsv kws (allImageResults st2))")
      case None
      then show ?thesis using o processImages_written [OF Inr False st2_def] by simp
    next
      case (Some msg)
      then show ?thesis using o n processImages_write_fails [OF Inr False st2_def]
        by (simp add: log_def)
    qed
  qed
qed

lemma written_csv_trailing_newline:
  "outputFile (processImages w kws) = Some csv \<Longrightarrow>
   ends_with_newline csv = (allImageResults (processImages w kws) = [])"
proof -
  assume o: "outputFile (processImages w kws) = Some csv"
  let ?rs = "allImageResults (processImages w kws)"
  have "?rs = [] \<or> kws \<noteq> [] \<or>
     (fileName (last ?rs) \<noteq> [] \<and> last (fileName (last ?rs)) \<noteq> newline)"
  proof (cases "?rs = []")
    case True
    then show ?thesis by simp
  next
    case False
    then have "last ?rs \<in> set ?rs" by simp
    then have "isSupportedImage (fileName (last ?rs))" by (rule processed_names_supported)
    then show ?thesis using supported_image_name by simp
  qed
  then have "ends_with_newline (convertToCsv kws ?rs) = (?rs = [])"
    by (rule csv_trailing_newline)
  then show ?thesis using outputFile_processImages [OF o] by simp
qed

lemmas run_eval =
  processImages_def Let_def initial_state_def log_def process_file_def
  isSupportedImage_def extname_def toLowerCase_def lower_char_def upper_case_letters_def
  lower_case_letters_def array_includes_def
  SUPPORTED_EXTENSIONS_def path_join_def path_normalize_def IMAGE_DIR_def OUTPUT_FILE_def checkKeywords_def
  foundCount_def Map_values_def TARGET_KEYWORDS_def number_eval summary_def
  convertToCsv_def header_def searchHeaders_def rows_def csv_row_def statusText_def newline_def

lemma example_run:
  "processImages example_world TARGET_KEYWORDS =
   \<lparr>allImageResults =
      [\<lparr>fileName = ''a.png'', keywordStatus = [(''Selamat'', True)]\<rparr>,
       \<lparr>fileName = ''c.tif'', keywordStatus = [(''Selamat'', True)]\<rparr>],
    totalSuccessfulMatches = 2,
    console =
      [LogStarting ''./images'', LogFound 3, LogSeparator,
       LogProcessed ''a.png'' 1 1, ErrorProcessing ''b.JPG'' ''unreadable'',
       LogProcessed ''c.tif'' 1 1, LogSummaryTop, LogSummaryTitle,
       LogSummaryRule, LogTotalImages 3, LogTotalKeywords 3,
       LogTotalMatches 2, LogAverage (Finite 4691249611844266 (- 46)),
       LogResultsWritten ''results.csv'', LogSummaryRule],
    outputFile = Some (''Case,Selamat'' @ [CHR 0x0A] @ ''a.png,found'' @ [CHR 0x0A] @ ''c.tif,found'')\<rparr>"
  by (simp add: example_world_def run_eval)

lemma processImages_matches_ge_results:
  "[] \<in> set kws \<Longrightarrow>
   length (allImageResults (processImages w kws)) \<le> totalSuccessfulMatches (processImages w kws)"
proof (cases "readdirSync w IMAGE_DIR")
  case (Inl msg)
  then show ?thesis by (simp add: processImages_listing_fails log_def initial_state_def)
next
  case (Inr files)
  assume e: "[] \<in> set kws"
  show ?thesis
  proof (cases "filter isSupportedImage files = []")
    case True
    with Inr show ?thesis by (simp add: processImages_no_images log_def initial_state_def)
  next
    case False
    define st2 where "st2 = process_loop w kws (filter isSupportedImage files)
      (loop_start (length (filter isSupportedImage files)))"
    have "length (allImageResults st2) \<le> totalSuccessfulMatches st2"
      unfolding st2_def using e by (rule matches_process_loop) (simp add: loop_start_fields)
    then show ?thesis
      using processImages_results [OF Inr False st2_def] by simp
  qed
qed

section \<open>The tally of a run\<close>

lemma length_deduplicated: "length (deduplicated xs) \<le> length xs"
proof (induction xs rule: deduplicated.induct)
  case 1
  show ?case by simp
next
  case (2 x xs)
  have "length (filter (\<lambda>y. y \<noteq> x) xs) \<le> length xs" by (rule length_filter_le)
  with 2 have "length (deduplicated (filter (\<lambda>y. y \<noteq> x) xs)) \<le> length xs"
    by (rule order_trans)
  then show ?case by simp
qed

lemma foundCount_le: "foundCount (checkKeywords kws t) \<le> length kws"
proof -
  have "foundCount (checkKeywords kws t) \<le> length (deduplicated kws)"
    by (simp add: foundCount_checkKeywords)
  then show ?thesis using length_deduplicated [of kws] by simp
qed

lemma foundCount_empty_keyword:
  "[] \<in> set kws \<Longrightarrow>
   foundCount (checkKeywords kws t) = Suc (foundCount (checkKeywords (removeAll [] kws) t))"
proof -
  assume e: "[] \<in> set kws"
  let ?P = "\<lambda>k. str_includes (toLowerCase t) (toLowerCase k)"
  have p: "?P []" by (simp add: toLowerCase_def str_includes_empty)
  have "length (filter ?P (deduplicated kws)) =
        Suc (length (filter ?P (removeAll [] (deduplicated kws))))"
    using e p count_true_removeAll [of "[]" "deduplicated kws" ?P]
    by (simp add: set_deduplicated distinct_deduplicated)
  then show ?thesis
    by (simp add: foundCount_checkKeywords removeAll_deduplicated)
qed

lemma recognized_texts_Nil: "recognized_texts w [] = []"
  by (simp add: recognized_texts_def)

lemma recognized_texts_Cons:
  "recognized_texts w (f # fs) =
   (case recognize w (path_join IMAGE_DIR f) of Inr t \<Rightarrow> [t] | Inl m \<Rightarrow> []) @
   recognized_texts w fs"
  by (simp add: recognized_texts_def)

lemma length_recognized_texts: "length (recognized_texts w files) \<le> length files"
  by (induction files) (auto simp: recognized_texts_Nil recognized_texts_Cons split: sum.splits)

lemma total_process_loop:
  "totalSuccessfulMatches (process_loop w kws files st) =
   totalSuccessfulMatches st +
   sum_list (map (\<lambda>t. foundCount (checkKeywords kws t)) (recognized_texts w files))"
proof (induction files arbitrary: st)
  case Nil
  show ?case by (simp add: recognized_texts_Nil)
next
  case (Cons f fs)
  show ?case
  proof (cases "recognize w (path_join IMAGE_DIR f)")
    case (Inl m)
    then show ?thesis
      by (simp add: Cons process_file_failure recognized_texts_Cons)
  next
    case (Inr t)
    then show ?thesis
      by (simp add: Cons process_file_success recognized_texts_Cons)
  qed
qed

lemma count_process_loop:
  "length (allImageResults (process_loop w kws files st)) =
   length (allImageResults st) + length (recognized_texts w files)"
proof (induction files arbitrary: st)
  case Nil
  show ?case by (simp add: recognized_texts_Nil)
next
  case (Cons f fs)
  show ?case
  proof (cases "recognize w (path_join IMAGE_DIR f)")
    case (Inl m)
    then show ?thesis
      by (simp add: Cons process_file_failure recognized_texts_Cons)
  next
    case (Inr t)
    then show ?thesis
      by (simp add: Cons process_file_success recognized_texts_Cons)
  qed
qed

lemma processImages_total:
  assumes "readdirSync w IMAGE_DIR = Inr files"
  shows "totalSuccessfulMatches (processImages w kws) =
         sum_list (map (\<lambda>t. foundCount (checkKeywords kws t))
           (recognized_texts w (filter isSupportedImage files)))"
    and "length (allImageResults (processImages w kws)) =
         length (recognized_texts w (filter isSupportedImage files))"
proof -
  have "totalSuccessfulMatches (processImages w kws) =
         sum_list (map (\<lambda>t. foundCount (checkKeywords kws t))
           (recognized_texts w (filter isSupportedImage files))) \<and>
        length (allImageResults (processImages w kws)) =
         length (recognized_texts w (filter isSupportedImage files))"
  proof (cases "filter isSupportedImage files = []")
    case True
    then show ?thesis
      using processImages_no_images [OF assms True, of kws]
      by (simp add: log_def initial_state_def recognized_texts_Nil)
  next
    case False
    show ?thesis
      using processImages_results [OF assms False refl, of kws]
      by (simp add: total_process_loop count_process_loop loop_start_fields)
  qed
  then show "totalSuccessfulMatches (processImages w kws) =
         sum_list (map (\<lambda>t. foundCount (checkKeywords kws t))
           (recognized_texts w (filter isSupportedImage files)))"
    and "length (allImageResults (processImages w kws)) =
         length (recognized_texts w (filter isSupportedImage files))"
    by simp_all
qed

lemma sum_list_bounded: "(\<And>x. f x \<le> c) \<Longrightarrow> sum_list (map f xs) \<le> length xs * c"
  by (induction xs) (auto intro: add_mono)

lemma processImages_total_le:
  assumes "readdirSync w IMAGE_DIR = Inr files"
  shows "totalSuccessfulMatches (processImages w kws) \<le>
         length (filter isSupportedImage files) * length kws"
proof -
  let ?ts = "recognized_texts w (filter isSupportedImage files)"
  have "sum_list (map (\<lambda>t. foundCount (checkKeywords kws t)) ?ts) \<le> length ?ts * length kws"
    by (rule sum_list_bounded) (rule foundCount_le)
  also have "\<dots> \<le> length (filter isSupportedImage files) * length kws"
    using length_recognized_texts [of w "filter isSupportedImage files"] by simp
  finally show ?thesis by (simp add: processImages_total(1) [OF assms])
qed

lemma sum_list_Suc:
  "sum_list (map (\<lambda>t. Suc (g t)) ts) = length ts + sum_list (map g ts)"
  by (induction ts) simp_all

lemma processImages_total_empty_keyword:
  assumes "readdirSync w IMAGE_DIR = Inr files" "[] \<in> set kws"
  shows "totalSuccessfulMatches (processImages w kws) =
         length (recognized_texts w (filter isSupportedImage files)) +
         totalSuccessfulMatches (processImages w (removeAll [] kws))"
  using assms(2)
  by (simp add: processImages_total(1) [OF assms(1)] foundCount_empty_keyword sum_list_Suc)

lemma value_of_number_zero: "value_of (number 0) = Some 0"
  by (simp add: number_def js_zero_def)

lemma rounding_run:
  "totalSuccessfulMatches (processImages rounding_world rounding_keywords) = 7 \<and>
   LogAverage (Finite 7881299347898369 (- 48)) \<in>
     set (console (processImages rounding_world rounding_keywords))"
  by (simp add: rounding_world_def rounding_keywords_def run_eval)

section \<open>Claims about the keyword matcher\<close>

text \<open>
  Claim C2. For every text \<open>T\<close> and every keyword \<open>K\<close> of the keyword list, the keyword
  matcher maps \<open>K\<close> to true if and only if the lower-cased \<open>K\<close> occurs as a contiguous
  substring of the lower-cased \<open>T\<close>, and to false otherwise. The substring relation is
  written out: the lower-cased text is some prefix, then the lower-cased keyword, then
  some suffix.
\<close>

theorem checkKeywords_found_iff_substring:
  "K \<in> set keywords \<Longrightarrow>
   (Map_get (checkKeywords keywords T) K = Some True) =
     (\<exists>pre post. toLowerCase T = pre @ toLowerCase K @ post) \<and>
   (Map_get (checkKeywords keywords T) K = Some False) =
     (\<not> (\<exists>pre post. toLowerCase T = pre @ toLowerCase K @ post))"
  by (simp add: Map_get_checkKeywords str_includes_iff)

theorem checkKeywords_found_iff_substring_witness:
  "''Selamat'' \<in> set TARGET_KEYWORDS \<and>
   Map_get (checkKeywords TARGET_KEYWORDS ''SELAMAT datang'') ''Selamat'' = Some True \<and>
   (\<exists>pre post. toLowerCase ''SELAMAT datang'' = pre @ toLowerCase ''Selamat'' @ post) \<and>
   Map_get (checkKeywords TARGET_KEYWORDS ''Terima kasih'') ''Selamat'' = Some False \<and>
   \<not> (\<exists>pre post. toLowerCase ''Terima kasih'' = pre @ toLowerCase ''Selamat'' @ post)"
proof -
  have k: "''Selamat'' \<in> set TARGET_KEYWORDS"
    by (simp add: TARGET_KEYWORDS_def)
  have a: "Map_get (checkKeywords TARGET_KEYWORDS ''SELAMAT datang'') ''Selamat'' = Some True"
    by (simp add: TARGET_KEYWORDS_def checkKeywords_def toLowerCase_def lower_char_def upper_case_letters_def lower_case_letters_def)
  have b: "Map_get (checkKeywords TARGET_KEYWORDS ''Terima kasih'') ''Selamat'' = Some False"
    by (simp add: TARGET_KEYWORDS_def checkKeywords_def toLowerCase_def lower_char_def upper_case_letters_def lower_case_letters_def)
  show ?thesis
    using k a b
      checkKeywords_found_iff_substring [OF k, of "''SELAMAT datang''"]
      checkKeywords_found_iff_substring [OF k, of "''Terima kasih''"]
    by simp
qed

text \<open>
  Claim C8. For every input text, the empty one included, the keys of the map returned
  by the keyword matcher are exactly the deduplicated keyword list, in the order of the
  keyword list; a keyword that occurs several times has one entry, and the value of that
  entry is the one written for the keyword (the last write replaces the earlier ones,
  see \<open>Map_get_Map_set\<close>).
\<close>

theorem checkKeywords_keys:
  "Map_keys (checkKeywords keywords text) = deduplicated keywords \<and>
   distinct (Map_keys (checkKeywords keywords text)) \<and>
   set (Map_keys (checkKeywords keywords text)) = set keywords \<and>
   (\<forall>k\<in>set keywords.
      Map_get (checkKeywords keywords text) k =
        Some (str_includes (toLowerCase text) (toLowerCase k)))"
proof -
  have keys: "Map_keys (checkKeywords keywords text) = deduplicated keywords"
    by (simp add: checkKeywords_tabulate Map_keys_tabulate)
  have vals: "\<forall>k\<in>set keywords.
      Map_get (checkKeywords keywords text) k =
        Some (str_includes (toLowerCase text) (toLowerCase k))"
    by (simp add: Map_get_checkKeywords)
  show ?thesis
    using vals by (simp add: keys distinct_deduplicated set_deduplicated)
qed

theorem checkKeywords_keys_witness:
  "''b'' \<in> set [''a'', ''b'', ''a'', ''B''] \<and>
   Map_keys (checkKeywords [''a'', ''b'', ''a'', ''B''] []) = [''a'', ''b'', ''B''] \<and>
   Map_get (checkKeywords [''a'', ''b'', ''a'', ''B''] []) ''b'' = Some False"
  using checkKeywords_keys [of "[''a'', ''b'', ''a'', ''B'']" "[]"]
  by (simp add: toLowerCase_def)

text \<open>
  Claim C10. For every input text, a keyword equal to the empty string is reported as
  found, and it contributes one successful match for every successfully processed
  image: the count of an image is one more than its count for the keyword list without
  the empty keyword, the total of a run is the sum of the counts of the recognized
  texts, and so it is the number of successfully processed images plus the total of the
  run without the empty keyword.
\<close>

theorem empty_keyword_always_found:
  "[] \<in> set keywords \<Longrightarrow>
   Map_get (checkKeywords keywords text) [] = Some True \<and>
   foundCount (checkKeywords keywords text) =
     Suc (foundCount (checkKeywords (removeAll [] keywords) text)) \<and>
   length (allImageResults (processImages w keywords)) \<le>
     totalSuccessfulMatches (processImages w keywords) \<and>
   (readdirSync w IMAGE_DIR = Inr files \<longrightarrow>
      length (allImageResults (processImages w keywords)) =
        length (recognized_texts w (filter isSupportedImage files)) \<and>
      totalSuccessfulMatches (processImages w keywords) =
        sum_list (map (\<lambda>t. foundCount (checkKeywords keywords t))
          (recognized_texts w (filter isSupportedImage files))) \<and>
      totalSuccessfulMatches (processImages w keywords) =
        length (recognized_texts w (filter isSupportedImage files)) +
        totalSuccessfulMatches (processImages w (removeAll [] keywords)))"
proof -
  assume e: "[] \<in> set keywords"
  have "str_includes (toLowerCase text) (toLowerCase [])"
    by (simp add: toLowerCase_def str_includes_empty)
  then have a: "Map_get (checkKeywords keywords text) [] = Some True"
    using e by (simp add: Map_get_checkKeywords)
  have b: "foundCount (checkKeywords keywords text) =
      Suc (foundCount (checkKeywords (removeAll [] keywords) text))"
    using e by (rule foundCount_empty_keyword)
  have c: "length (allImageResults (processImages w keywords)) \<le>
      totalSuccessfulMatches (processImages w keywords)"
    using e by (rule processImages_matches_ge_results)
  have d: "readdirSync w IMAGE_DIR = Inr files \<longrightarrow>
      length (allImageResults (processImages w keywords)) =
        length (recognized_texts w (filter isSupportedImage files)) \<and>
      totalSuccessfulMatches (processImages w keywords) =
        sum_list (map (\<lambda>t. foundCount (checkKeywords keywords t))
          (recognized_texts w (filter isSupportedImage files))) \<and>
      totalSuccessfulMatches (processImages w keywords) =
        length (recognized_texts w (filter isSupportedImage files)) +
        totalSuccessfulMatches (processImages w (removeAll [] keywords))"
    using e processImages_total [of w files "keywords"]
      processImages_total_empty_keyword [of w files "keywords"]
    by blast
  from a b c d show ?thesis by blast
qed

theorem empty_keyword_always_found_witness:
  "[] \<in> set [''Selamat'', []] \<and>
   Map_get (checkKeywords [''Selamat'', []] ''Terima kasih'') [] = Some True \<and>
   foundCount (checkKeywords [''Selamat'', []] ''Terima kasih'') = 1 \<and>
   foundCount (checkKeywords (removeAll [] [''Selamat'', []]) ''Terima kasih'') = 0 \<and>
   readdirSync example_world IMAGE_DIR = Inr [''a.png'', ''notes.txt'', ''b.JPG'', ''c.tif''] \<and>
   recognized_texts example_world
     (filter isSupportedImage [''a.png'', ''notes.txt'', ''b.JPG'', ''c.tif'']) =
     [''Selamat datang'', ''Selamat datang''] \<and>
   length (allImageResults (processImages example_world [''Selamat'', []])) = 2 \<and>
   totalSuccessfulMatches (processImages example_world (removeAll [] [''Selamat'', []])) = 2 \<and>
   totalSuccessfulMatches (processImages example_world [''Selamat'', []]) = 4"
proof -
  have z: "foundCount (checkKeywords (removeAll [] [''Selamat'', []]) ''Terima kasih'') = 0"
    by (simp add: foundCount_def Map_values_def checkKeywords_def toLowerCase_def lower_char_def
        upper_case_letters_def lower_case_letters_def)
  have l: "readdirSync example_world IMAGE_DIR =
      Inr [''a.png'', ''notes.txt'', ''b.JPG'', ''c.tif'']"
    by (simp add: example_world_def)
  have r: "recognized_texts example_world
     (filter isSupportedImage [''a.png'', ''notes.txt'', ''b.JPG'', ''c.tif'']) =
     [''Selamat datang'', ''Selamat datang'']"
    by (simp add: recognized_texts_def example_world_def run_eval)
  have t: "totalSuccessfulMatches (processImages example_world (removeAll [] [''Selamat'', []])) = 2"
    using example_run by (simp add: TARGET_KEYWORDS_def)
  show ?thesis
    using z l r t
      empty_keyword_always_found [of "[''Selamat'', []]" "''Terima kasih''" example_world
        "[''a.png'', ''notes.txt'', ''b.JPG'', ''c.tif'']"]
    by simp
qed

section \<open>Claims about the CSV serializer\<close>

text \<open>
  Claim C5. For every keyword list, serializing the empty result list returns one line,
  the text \<open>Case,\<close> followed by the keywords joined with commas, ended by a newline: the
  document is the header row and nothing else.
\<close>

theorem convertToCsv_no_results:
  "convertToCsv keywords [] = (''Case,'' @ join '','' keywords) @ [newline] \<and>
   convertToCsv keywords [] = header keywords"
  by (simp add: convertToCsv_def header_def searchHeaders_def rows_def)

text \<open>
  Claim C9. The serialized CSV string ends with a newline character if and only if the
  result list is empty: the header carries a trailing newline, the data rows are joined
  by single newlines, and no newline follows the last row. The serializer is called once,
  with the results of a run, whose file names are qualifying image names; the claim is
  proved for the document that a run writes and for every result list with such names.
\<close>

theorem written_csv_ends_with_newline:
  "(outputFile (processImages w keywords) = Some csv \<longrightarrow>
      csv = convertToCsv keywords (allImageResults (processImages w keywords)) \<and>
      ends_with_newline csv = (allImageResults (processImages w keywords) = [])) \<and>
   ((\<forall>r\<in>set results. isSupportedImage (fileName r)) \<longrightarrow>
      ends_with_newline (convertToCsv keywords results) = (results = []))"
proof -
  have a: "outputFile (processImages w keywords) = Some csv \<longrightarrow>
      csv = convertToCsv keywords (allImageResults (processImages w keywords)) \<and>
      ends_with_newline csv = (allImageResults (processImages w keywords) = [])"
    using outputFile_processImages [of w "keywords" csv]
      written_csv_trailing_newline [of w "keywords" csv]
    by blast
  have b: "(\<forall>r\<in>set results. isSupportedImage (fileName r)) \<longrightarrow>
      ends_with_newline (convertToCsv keywords results) = (results = [])"
  proof
    assume h: "\<forall>r\<in>set results. isSupportedImage (fileName r)"
    have "results = [] \<or> keywords \<noteq> [] \<or>
        (fileName (last results) \<noteq> [] \<and> last (fileName (last results)) \<noteq> newline)"
    proof (cases "results = []")
      case True
      then show ?thesis by simp
    next
      case False
      then have "last results \<in> set results" by simp
      with h have "isSupportedImage (fileName (last results))" by blast
      then show ?thesis using supported_image_name by simp
    qed
    then show "ends_with_newline (convertToCsv keywords results) = (results = [])"
      by (rule csv_trailing_newline)
  qed
  from a b show ?thesis by blast
qed

theorem written_csv_ends_with_newline_witness:
  "outputFile (processImages example_world TARGET_KEYWORDS) =
     Some (''Case,Selamat'' @ [newline] @ ''a.png,found'' @ [newline] @ ''c.tif,found'') \<and>
   allImageResults (processImages example_world TARGET_KEYWORDS) \<noteq> [] \<and>
   \<not> ends_with_newline
       (''Case,Selamat'' @ [newline] @ ''a.png,found'' @ [newline] @ ''c.tif,found'') \<and>
   outputFile (processImages all_fail_world TARGET_KEYWORDS) = Some (''Case,Selamat'' @ [newline]) \<and>
   allImageResults (processImages all_fail_world TARGET_KEYWORDS) = [] \<and>
   ends_with_newline (''Case,Selamat'' @ [newline]) \<and>
   isSupportedImage (fileName \<lparr>fileName = ''a.png'', keywordStatus = []\<rparr>) \<and>
   \<not> ends_with_newline (convertToCsv [] [\<lparr>fileName = ''a.png'', keywordStatus = []\<rparr>])"
proof -
  let ?csv1 = "''Case,Selamat'' @ [newline] @ ''a.png,found'' @ [newline] @ ''c.tif,found''"
  let ?csv2 = "''Case,Selamat'' @ [newline]"
  let ?r = "\<lparr>fileName = ''a.png'', keywordStatus = []\<rparr>"
  have o1: "outputFile (processImages example_world TARGET_KEYWORDS) = Some ?csv1"
    by (simp add: example_run newline_def)
  have r1: "allImageResults (processImages example_world TARGET_KEYWORDS) \<noteq> []"
    by (simp add: example_run)
  have o2: "outputFile (processImages all_fail_world TARGET_KEYWORDS) = Some ?csv2"
    by (simp add: all_fail_world_def run_eval)
  have r2: "allImageResults (processImages all_fail_world TARGET_KEYWORDS) = []"
    by (simp add: all_fail_world_def run_eval)
  have i: "isSupportedImage (fileName ?r)"
    by (simp add: run_eval)
  then have i': "\<forall>r\<in>set [?r]. isSupportedImage (fileName r)" by simp
  have e1: "\<not> ends_with_newline ?csv1"
    using written_csv_ends_with_newline [of example_world TARGET_KEYWORDS ?csv1 "[]"] o1 r1
    by blast
  have e2: "ends_with_newline ?csv2"
    using written_csv_ends_with_newline [of all_fail_world TARGET_KEYWORDS ?csv2 "[]"] o2 r2
    by blast
  have e3: "\<not> ends_with_newline (convertToCsv [] [?r])"
    using written_csv_ends_with_newline [of example_world "[]" "[]" "[?r]"] i'
    by blast
  from o1 r1 e1 o2 r2 e2 i e3 show ?thesis by blast
qed

text \<open>
  Claim C6. With the empty keyword list, the header line of the serialized CSV is
  claimed to be \<open>Case\<close>. The template of the header puts the comma after \<open>Case\<close> whether
  or not a keyword follows, so the header line is \<open>Case,\<close>: the theorem evaluates the
  serializer there.
\<close>

theorem header_no_keywords:
  "header [] = ''Case,'' @ [newline] \<and>
   convertToCsv [] results = ''Case,'' @ [newline] @ join [newline] (map fileName results) \<and>
   split_on newline (convertToCsv [] []) = [''Case,'', []]"
  by (simp add: convertToCsv_def header_def searchHeaders_def rows_def csv_row_def newline_def
      cong: map_cong)

text \<open>
  Claim C4. Every data row has \<open>1 + length keywords\<close> comma-separated fields, and as many
  as the header row. The rows have that number of fields (\<open>column_count_csv_row\<close>) and so
  does a header with at least one keyword (\<open>column_count_header\<close>); with the empty
  keyword list the header has two fields and each data row has one: the theorem
  evaluates the serializer on one result and no keyword.
\<close>

theorem column_counts_no_keywords:
  "split_on newline (convertToCsv [] [\<lparr>fileName = ''a.png'', keywordStatus = []\<rparr>]) =
     [''Case,'', ''a.png''] \<and>
   map column_count
     (split_on newline (convertToCsv [] [\<lparr>fileName = ''a.png'', keywordStatus = []\<rparr>])) = [2, 1]"
  by (simp add: convertToCsv_def header_def searchHeaders_def rows_def csv_row_def newline_def
      column_count_def)

section \<open>Claims about the orchestrator\<close>

text \<open>
  Claim C1. In every run in which the directory is listed, a qualifying image file on
  which recognition fails has its name and the error message written to the console and
  gets no \<open>ImageResult\<close>; processing continues, so the results are, in order, the
  qualifying files on which recognition succeeded, and they are at most as many as the
  qualifying files. No such failure aborts the batch: a fatal error is reported only
  when writing the output file fails, and when that write succeeds the file holds the
  CSV of the collected results.
\<close>

theorem processImages_partial_failure:
  assumes "readdirSync w IMAGE_DIR = Inr files"
    and "imageFiles = filter isSupportedImage files"
    and "st = processImages w keywords"
  shows "(\<forall>f\<in>set imageFiles. \<forall>m. recognize w (path_join IMAGE_DIR f) = Inl m \<longrightarrow>
           ErrorProcessing f m \<in> set (console st) \<and>
           f \<notin> set (map fileName (allImageResults st))) \<and>
         map fileName (allImageResults st) =
           filter (\<lambda>f. \<not> isl (recognize w (path_join IMAGE_DIR f))) imageFiles \<and>
         length (allImageResults st) \<le> length imageFiles \<and>
         (\<forall>m. ErrorFatal m \<in> set (console st) \<longrightarrow>
           writeFileSync w OUTPUT_FILE (convertToCsv keywords (allImageResults st)) = Some m) \<and>
         (imageFiles \<noteq> [] \<and>
          writeFileSync w OUTPUT_FILE (convertToCsv keywords (allImageResults st)) = None \<longrightarrow>
           outputFile st = Some (convertToCsv keywords (allImageResults st)))"
  using partial_failure_parts [OF assms] by (intro conjI)

theorem processImages_partial_failure_witness:
  "readdirSync example_world IMAGE_DIR = Inr [''a.png'', ''notes.txt'', ''b.JPG'', ''c.tif''] \<and>
   filter isSupportedImage [''a.png'', ''notes.txt'', ''b.JPG'', ''c.tif''] =
     [''a.png'', ''b.JPG'', ''c.tif''] \<and>
   recognize example_world (path_join IMAGE_DIR ''b.JPG'') = Inl ''unreadable'' \<and>
   ErrorProcessing ''b.JPG'' ''unreadable'' \<in>
     set (console (processImages example_world TARGET_KEYWORDS)) \<and>
   map fileName (allImageResults (processImages example_world TARGET_KEYWORDS)) =
     [''a.png'', ''c.tif''] \<and>
   writeFileSync example_world OUTPUT_FILE
     (convertToCsv TARGET_KEYWORDS (allImageResults (processImages example_world TARGET_KEYWORDS)))
     = None \<and>
   outputFile (processImages example_world TARGET_KEYWORDS) =
     Some (convertToCsv TARGET_KEYWORDS
       (allImageResults (processImages example_world TARGET_KEYWORDS)))"
proof -
  have l: "readdirSync example_world IMAGE_DIR =
      Inr [''a.png'', ''notes.txt'', ''b.JPG'', ''c.tif'']"
    by (simp add: example_world_def)
  have i: "filter isSupportedImage [''a.png'', ''notes.txt'', ''b.JPG'', ''c.tif''] =
      [''a.png'', ''b.JPG'', ''c.tif'']"
    by (simp add: run_eval)
  have r: "recognize example_world (path_join IMAGE_DIR ''b.JPG'') = Inl ''unreadable''"
    by (simp add: example_world_def path_join_def path_normalize_def IMAGE_DIR_def)
  have s: "\<not> isl (recognize example_world (path_join IMAGE_DIR ''a.png''))"
    "\<not> isl (recognize example_world (path_join IMAGE_DIR ''c.tif''))"
    by (simp_all add: example_world_def path_join_def path_normalize_def IMAGE_DIR_def)
  have w: "\<And>d. writeFileSync example_world OUTPUT_FILE d = None"
    by (simp add: example_world_def)
  show ?thesis
    using processImages_partial_failure [OF l i [symmetric] refl, of TARGET_KEYWORDS] l i r s w
    by simp
qed

text \<open>
  Claim C3. After the processing loop, \<open>totalPossibleChecks\<close> is the number of attempted
  qualifying images times the number of keywords, and \<open>averageMatchPercentage\<close> equals
  \<open>100 * totalSuccessfulMatches / totalPossibleChecks\<close>, and \<open>0\<close> when
  \<open>totalPossibleChecks\<close> is \<open>0\<close>. The equality of the percentage fails: the source takes
  the quotient and then the product on doubles, and in a run with five images, five
  keywords and seven matches the result is \<open>28 + 1 / 2 ^ 48\<close>, not \<open>28\<close>.
\<close>

theorem processImages_summary_counterexample:
  "readdirSync rounding_world IMAGE_DIR =
     Inr [''1.png'', ''2.png'', ''3.png'', ''4.png'', ''5.png''] \<and>
   length (filter isSupportedImage [''1.png'', ''2.png'', ''3.png'', ''4.png'', ''5.png'']) *
     length rounding_keywords = 25 \<and>
   totalSuccessfulMatches (processImages rounding_world rounding_keywords) = 7 \<and>
   LogAverage (Finite 7881299347898369 (- 48)) \<in>
     set (console (processImages rounding_world rounding_keywords)) \<and>
   value_of (Finite 7881299347898369 (- 48)) = Some (28 + 1 / 2 ^ 48) \<and>
   (100 * 7 / 25 :: rat) = 28 \<and>
   value_of (Finite 7881299347898369 (- 48)) \<noteq> Some (100 * 7 / 25)"
proof -
  have l: "readdirSync rounding_world IMAGE_DIR =
     Inr [''1.png'', ''2.png'', ''3.png'', ''4.png'', ''5.png'']"
    by (simp add: rounding_world_def)
  have n: "length (filter isSupportedImage [''1.png'', ''2.png'', ''3.png'', ''4.png'', ''5.png'']) *
     length rounding_keywords = 25"
    by (simp add: rounding_keywords_def isSupportedImage_def extname_def toLowerCase_def
        lower_char_def upper_case_letters_def lower_case_letters_def array_includes_def
        SUPPORTED_EXTENSIONS_def)
  have v: "value_of (Finite 7881299347898369 (- 48)) = Some (28 + 1 / 2 ^ 48)"
    by (simp add: pow2_def)
  have e: "(100 * 7 / 25 :: rat) = 28" by simp
  have d: "value_of (Finite 7881299347898369 (- 48)) \<noteq> Some (100 * 7 / 25)"
    by (simp add: pow2_def)
  from l n rounding_run v e d show ?thesis by blast
qed

text \<open>
  Claim C3, amended. After the processing loop, \<open>totalPossibleChecks\<close> is the number of
  attempted qualifying images, those whose recognition failed included, times the number
  of keywords. \<open>averageMatchPercentage\<close> is \<open>0\<close> when \<open>totalPossibleChecks\<close> is \<open>0\<close>;
  otherwise it is the double that \<open>(totalSuccessfulMatches / totalPossibleChecks) * 100\<close>
  evaluates to, the quotient and the product each rounded to the nearest double, and for
  \<open>totalPossibleChecks\<close> below \<open>2 ^ 53\<close> it differs from \<open>100 * totalSuccessfulMatches /
  totalPossibleChecks\<close> by at most that value divided by \<open>2 ^ 51\<close>. These are the values
  printed in the summary of a run that wrote its output.
\<close>

theorem processImages_summary:
  assumes "readdirSync w IMAGE_DIR = Inr files"
    and "imageFiles = filter isSupportedImage files"
    and "imageFiles \<noteq> []"
    and "st = processImages w keywords"
    and "writeFileSync w OUTPUT_FILE (convertToCsv keywords (allImageResults st)) = None"
    and "totalPossibleChecks = length imageFiles * length keywords"
    and "matches = totalSuccessfulMatches st"
  shows "console st =
           [LogStarting IMAGE_DIR, LogFound (length imageFiles), LogSeparator] @
           map (file_entry w keywords) imageFiles @
           [LogSummaryTop, LogSummaryTitle, LogSummaryRule,
            LogTotalImages (length imageFiles),
            LogTotalKeywords totalPossibleChecks,
            LogTotalMatches matches,
            LogAverage (averageMatchPercentage matches totalPossibleChecks),
            LogResultsWritten OUTPUT_FILE,
            LogSummaryRule] \<and>
         (totalPossibleChecks = 0 \<longrightarrow>
            value_of (averageMatchPercentage matches totalPossibleChecks) = Some 0) \<and>
         (0 < totalPossibleChecks \<longrightarrow>
            averageMatchPercentage matches totalPossibleChecks =
              js_times (js_divide (number matches) (number totalPossibleChecks)) (number 100)) \<and>
         (0 < totalPossibleChecks \<and> totalPossibleChecks < 2 ^ 53 \<longrightarrow>
            (\<exists>v. value_of (averageMatchPercentage matches totalPossibleChecks) = Some v \<and>
               \<bar>v - 100 * of_nat matches / of_nat totalPossibleChecks\<bar> \<le>
                 (100 * of_nat matches / of_nat totalPossibleChecks) / 2 ^ 51))"
proof -
  define st2 where "st2 = process_loop w keywords imageFiles (loop_start (length imageFiles))"
  have ne: "filter isSupportedImage files \<noteq> []" using assms(2,3) by simp
  have s2: "st2 = process_loop w keywords (filter isSupportedImage files)
      (loop_start (length (filter isSupportedImage files)))"
    using assms(2) by (simp add: st2_def)
  have r: "allImageResults st = allImageResults st2"
    using assms(4) processImages_results(1) [OF assms(1) ne s2] by simp
  have wr: "writeFileSync w OUTPUT_FILE (convertToCsv keywords (allImageResults st2)) = None"
    using assms(5) r by simp
  have console2: "console st2 =
      [LogStarting IMAGE_DIR, LogFound (length imageFiles), LogSeparator] @
      map (file_entry w keywords) imageFiles"
    by (simp add: st2_def console_process_loop loop_start_fields)
  have a: "console st =
           [LogStarting IMAGE_DIR, LogFound (length imageFiles), LogSeparator] @
           map (file_entry w keywords) imageFiles @
           [LogSummaryTop, LogSummaryTitle, LogSummaryRule,
            LogTotalImages (length imageFiles),
            LogTotalKeywords totalPossibleChecks,
            LogTotalMatches matches,
            LogAverage (averageMatchPercentage matches totalPossibleChecks),
            LogResultsWritten OUTPUT_FILE,
            LogSummaryRule]"
    using assms(2,4,6,7) processImages_written [OF assms(1) ne s2 wr]
    by (simp add: console2 summary_def)
  have b: "totalPossibleChecks = 0 \<longrightarrow>
      value_of (averageMatchPercentage matches totalPossibleChecks) = Some 0"
    by (simp add: averageMatchPercentage_def value_of_number_zero)
  have c: "0 < totalPossibleChecks \<longrightarrow>
      averageMatchPercentage matches totalPossibleChecks =
        js_times (js_divide (number matches) (number totalPossibleChecks)) (number 100)"
    by (simp add: averageMatchPercentage_def)
  have le: "matches \<le> totalPossibleChecks"
    using processImages_total_le [OF assms(1), of "keywords"] assms(2,4,6,7) by simp
  have d: "0 < totalPossibleChecks \<and> totalPossibleChecks < 2 ^ 53 \<longrightarrow>
      (\<exists>v. value_of (averageMatchPercentage matches totalPossibleChecks) = Some v \<and>
         \<bar>v - 100 * of_nat matches / of_nat totalPossibleChecks\<bar> \<le>
           (100 * of_nat matches / of_nat totalPossibleChecks) / 2 ^ 51)"
  proof
    assume h: "0 < totalPossibleChecks \<and> totalPossibleChecks < 2 ^ 53"
    then obtain s p where
      "averageMatchPercentage matches totalPossibleChecks = Finite s p"
      "\<bar>of_nat s * pow2 p - 100 * of_nat matches / of_nat totalPossibleChecks\<bar> \<le>
         (100 * of_nat matches / of_nat totalPossibleChecks) / 2 ^ 51"
      using averageMatchPercentage_error [of totalPossibleChecks matches] le by blast
    then show "\<exists>v. value_of (averageMatchPercentage matches totalPossibleChecks) = Some v \<and>
         \<bar>v - 100 * of_nat matches / of_nat totalPossibleChecks\<bar> \<le>
           (100 * of_nat matches / of_nat totalPossibleChecks) / 2 ^ 51"
      by simp
  qed
  from a b c d show ?thesis by blast
qed

theorem processImages_summary_witness:
  "readdirSync example_world IMAGE_DIR = Inr [''a.png'', ''notes.txt'', ''b.JPG'', ''c.tif''] \<and>
   filter isSupportedImage [''a.png'', ''notes.txt'', ''b.JPG'', ''c.tif''] =
     [''a.png'', ''b.JPG'', ''c.tif''] \<and>
   length (allImageResults (processImages example_world TARGET_KEYWORDS)) = 2 \<and>
   totalSuccessfulMatches (processImages example_world TARGET_KEYWORDS) = 2 \<and>
   LogTotalKeywords 3 \<in> set (console (processImages example_world TARGET_KEYWORDS)) \<and>
   LogAverage (averageMatchPercentage 2 3) \<in>
     set (console (processImages example_world TARGET_KEYWORDS)) \<and>
   averageMatchPercentage 2 3 = Finite 4691249611844266 (- 46) \<and>
   (\<exists>v. value_of (averageMatchPercentage 2 3) = Some v \<and>
      \<bar>v - 100 * 2 / 3\<bar> \<le> (100 * 2 / 3) / 2 ^ 51) \<and>
   LogTotalKeywords 0 \<in> set (console (processImages example_world [])) \<and>
   LogAverage (averageMatchPercentage 2 0) \<in> set (console (processImages example_world [])) \<and>
   value_of (averageMatchPercentage 2 0) = Some 0"
proof -
  let ?files = "[''a.png'', ''notes.txt'', ''b.JPG'', ''c.tif'']"
  have l: "readdirSync example_world IMAGE_DIR = Inr ?files"
    by (simp add: example_world_def)
  have i: "filter isSupportedImage ?files = [''a.png'', ''b.JPG'', ''c.tif'']"
    by (simp add: run_eval)
  have n: "[''a.png'', ''b.JPG'', ''c.tif''] \<noteq> ([] :: string list)" by simp
  have w1: "writeFileSync example_world OUTPUT_FILE
     (convertToCsv TARGET_KEYWORDS (allImageResults (processImages example_world TARGET_KEYWORDS)))
     = None"
    by (simp add: example_world_def)
  have w2: "writeFileSync example_world OUTPUT_FILE
     (convertToCsv [] (allImageResults (processImages example_world []))) = None"
    by (simp add: example_world_def)
  have m: "totalSuccessfulMatches (processImages example_world TARGET_KEYWORDS) = 2"
    "length (allImageResults (processImages example_world TARGET_KEYWORDS)) = 2"
    by (simp_all add: example_run)
  have m0: "totalSuccessfulMatches (processImages example_world []) = 0"
    using processImages_total_le [OF l, of "[]"] by simp
  have k: "length TARGET_KEYWORDS = 1" by (simp add: TARGET_KEYWORDS_def)
  have v: "averageMatchPercentage 2 3 = Finite 4691249611844266 (- 46)"
    by (simp add: number_eval)
  have tp1: "3 = length [''a.png'', ''b.JPG'', ''c.tif''] * length TARGET_KEYWORDS"
    by (simp add: TARGET_KEYWORDS_def)
  have tp2: "0 = length [''a.png'', ''b.JPG'', ''c.tif''] * length ([] :: string list)"
    by simp
  note t1 = processImages_summary [OF l i [symmetric] n refl w1 tp1 m(1) [symmetric]]
  note t2 = processImages_summary [OF l i [symmetric] n refl w2 tp2 m0 [symmetric]]
  have ce1: "console (processImages example_world TARGET_KEYWORDS) =
           [LogStarting IMAGE_DIR, LogFound (length [''a.png'', ''b.JPG'', ''c.tif'']),
            LogSeparator] @
           map (file_entry example_world TARGET_KEYWORDS) [''a.png'', ''b.JPG'', ''c.tif''] @
           [LogSummaryTop, LogSummaryTitle, LogSummaryRule,
            LogTotalImages (length [''a.png'', ''b.JPG'', ''c.tif'']),
            LogTotalKeywords 3,
            LogTotalMatches 2,
            LogAverage (averageMatchPercentage 2 3),
            LogResultsWritten OUTPUT_FILE,
            LogSummaryRule]"
    using t1 by blast
  have c1: "LogTotalKeywords 3 \<in> set (console (processImages example_world TARGET_KEYWORDS))"
    "LogAverage (averageMatchPercentage 2 3) \<in>
       set (console (processImages example_world TARGET_KEYWORDS))"
    by (simp_all add: ce1)
  have rg: "0 < (3::nat) \<and> (3::nat) < 2 ^ 53" by simp
  have "\<exists>v. value_of (averageMatchPercentage 2 3) = Some v \<and>
      \<bar>v - 100 * of_nat 2 / of_nat 3\<bar> \<le> (100 * of_nat 2 / of_nat 3) / 2 ^ 51"
    using t1 rg by blast
  then have b1: "\<exists>v. value_of (averageMatchPercentage 2 3) = Some v \<and>
      \<bar>v - 100 * 2 / 3\<bar> \<le> (100 * 2 / 3) / 2 ^ 51"
    by simp
  have ce2: "console (processImages example_world []) =
           [LogStarting IMAGE_DIR, LogFound (length [''a.png'', ''b.JPG'', ''c.tif'']),
            LogSeparator] @
           map (file_entry example_world []) [''a.png'', ''b.JPG'', ''c.tif''] @
           [LogSummaryTop, LogSummaryTitle, LogSummaryRule,
            LogTotalImages (length [''a.png'', ''b.JPG'', ''c.tif'']),
            LogTotalKeywords 0,
            LogTotalMatches 0,
            LogAverage (averageMatchPercentage 0 0),
            LogResultsWritten OUTPUT_FILE,
            LogSummaryRule]"
    using t2 by blast
  have c2: "LogTotalKeywords 0 \<in> set (console (processImages example_world []))"
    by (simp add: ce2)
  have c3: "LogAverage (averageMatchPercentage 0 0) \<in> set (console (processImages example_world []))"
    by (simp add: ce2)
  have c4: "value_of (averageMatchPercentage 0 0) = Some 0"
    using t2 by blast
  have z: "averageMatchPercentage 2 0 = averageMatchPercentage 0 0"
    by (simp add: averageMatchPercentage_def)
  from l i m c1 v b1 c2 c3 c4 z show ?thesis by simp
qed

text \<open>
  Claim C7. When the directory listing has no qualifying image file, that is no entry
  whose lower-cased extension is one of \<open>.jpg\<close>, \<open>.jpeg\<close>, \<open>.png\<close>, \<open>.tiff\<close>, \<open>.tif\<close>, the run
  logs the message that no supported image was found and ends: no output file is
  written and no fatal error is reported.
\<close>

theorem processImages_no_supported_images:
  assumes "readdirSync w IMAGE_DIR = Inr files"
    and "\<forall>f\<in>set files. toLowerCase (extname f) \<notin> set SUPPORTED_EXTENSIONS"
  shows "processImages w keywords =
           \<lparr>allImageResults = [], totalSuccessfulMatches = 0,
            console = [LogStarting IMAGE_DIR,
                       LogNoSupportedImages ''.jpg, .jpeg, .png, .tiff, .tif'' IMAGE_DIR],
            outputFile = None\<rparr> \<and>
         outputFile (processImages w keywords) = None \<and>
         (\<forall>m. ErrorFatal m \<notin> set (console (processImages w keywords)))"
proof -
  have "filter isSupportedImage files = []"
    using assms(2) by (simp add: filter_empty_conv isSupportedImage_def array_includes_def)
  then show ?thesis
    using processImages_no_images [OF assms(1)]
    by (simp add: log_def initial_state_def SUPPORTED_EXTENSIONS_def)
qed

theorem processImages_no_supported_images_witness:
  "readdirSync no_images_world IMAGE_DIR = Inr [''notes.txt'', ''.png'', ''README''] \<and>
   toLowerCase (extname ''notes.txt'') \<notin> set SUPPORTED_EXTENSIONS \<and>
   toLowerCase (extname ''.png'') \<notin> set SUPPORTED_EXTENSIONS \<and>
   toLowerCase (extname ''README'') \<notin> set SUPPORTED_EXTENSIONS \<and>
   console (processImages no_images_world TARGET_KEYWORDS) =
     [LogStarting IMAGE_DIR,
      LogNoSupportedImages ''.jpg, .jpeg, .png, .tiff, .tif'' IMAGE_DIR] \<and>
   outputFile (processImages no_images_world TARGET_KEYWORDS) = None"
proof -
  have l: "readdirSync no_images_world IMAGE_DIR = Inr [''notes.txt'', ''.png'', ''README'']"
    by (simp add: no_images_world_def)
  have n: "\<forall>f\<in>set [''notes.txt'', ''.png'', ''README''].
      toLowerCase (extname f) \<notin> set SUPPORTED_EXTENSIONS"
    by (simp add: extname_def toLowerCase_def lower_char_def upper_case_letters_def lower_case_letters_def SUPPORTED_EXTENSIONS_def)
  show ?thesis
    using processImages_no_supported_images [OF l n, of TARGET_KEYWORDS] l n
    by simp
qed

end
